theory Spec2Isabelle
  imports Main "HOL-Library.Word"
begin

unbundle bit_operations_syntax

section \<open>The mapped image and the globals read from its header\<close>

text \<open>
  \<^verbatim>\<open>nitrofs.c\<close> maps the NDS file into memory (\<^verbatim>\<open>nds_mapping\<close>, \<^verbatim>\<open>nds_size\<close> bytes) and
  copies four 32-bit header fields into globals. The mapping is a list of bytes; its
  length is \<^verbatim>\<open>nds_size\<close>. The source never compares an address with \<^verbatim>\<open>nds_size\<close>: a
  \<^verbatim>\<open>memcpy\<close> or a dereference that leaves the mapping is undefined behaviour in C, and is
  the value \<open>OutOfBounds\<close> here. What the host does with such a read is not modelled:
  \<^verbatim>\<open>mmap\<close> serves the rest of the mapping's last page as zeros, so that the program goes
  on where the read stays on that page, and faults past it. \<open>OutOfBounds\<close> therefore says
  that a read left the \<^verbatim>\<open>nds_size\<close> bytes of the file, not that the program stopped;
  the properties of built trees below are stated for builds that read inside the file.
  A recursion that does not return is \<open>OutOfFuel\<close> for every amount of fuel. \<^verbatim>\<open>malloc\<close>
  is taken to succeed (the only \<^verbatim>\<open>return -1\<close> of the builder is its failure).

  Multi-byte fields are copied with \<^verbatim>\<open>memcpy\<close> into host integers: the host is taken to
  be little-endian with 64-bit \<^verbatim>\<open>size_t\<close>, pointers and \<^verbatim>\<open>off_t\<close> (addresses are natural
  numbers here, since pointer arithmetic on such a host does not wrap for 32-bit
  offsets).
\<close>

type_synonym byte = "8 word"

datatype failure = OutOfFuel | OutOfBounds

record nds =
  nds_mapping :: "byte list"
  fnt_offset :: "32 word"
  fnt_length :: "32 word"
  fat_offset :: "32 word"
  fat_length :: "32 word"

definition FNT_OFFSET :: nat where "FNT_OFFSET = 0x40"
definition FNT_LENGTH :: nat where "FNT_LENGTH = 0x44"
definition FAT_OFFSET :: nat where "FAT_OFFSET = 0x48"
definition FAT_LENGTH :: nat where "FAT_LENGTH = 0x4C"

definition NITRO_ROOT :: "16 word" where "NITRO_ROOT = 0xF000"
definition NITRO_DIRMASK :: "16 word" where "NITRO_DIRMASK = 0x0FFF"

text \<open>\<open>peek m a n\<close>: the \<open>n\<close> bytes at address \<open>a\<close>, when they all lie in the mapping.\<close>

definition peek :: "byte list \<Rightarrow> nat \<Rightarrow> nat \<Rightarrow> byte list option" where
  "peek m a n = (if a + n \<le> length m then Some (take n (drop a m)) else None)"

definition byte_at :: "byte list \<Rightarrow> nat \<Rightarrow> byte option" where
  "byte_at m a = (if a < length m then Some (m ! a) else None)"

fun le_nat :: "byte list \<Rightarrow> nat" where
  "le_nat [] = 0"
| "le_nat (b # bs) = unat b + 256 * le_nat bs"

definition read_u16 :: "byte list \<Rightarrow> nat \<Rightarrow> 16 word option" where
  "read_u16 m a = map_option (\<lambda>bs. of_nat (le_nat bs)) (peek m a 2)"

definition read_u32 :: "byte list \<Rightarrow> nat \<Rightarrow> 32 word option" where
  "read_u32 m a = map_option (\<lambda>bs. of_nat (le_nat bs)) (peek m a 4)"

text \<open>The four \<^verbatim>\<open>memcpy\<close> calls of \<^verbatim>\<open>main\<close> that fill the globals.\<close>

definition load_globals :: "byte list \<Rightarrow> failure + nds" where
  "load_globals m =
     (case (read_u32 m FNT_OFFSET, read_u32 m FNT_LENGTH,
            read_u32 m FAT_OFFSET, read_u32 m FAT_LENGTH) of
        (Some a, Some b, Some c, Some d) \<Rightarrow>
          Inr \<lparr>nds_mapping = m, fnt_offset = a, fnt_length = b,
               fat_offset = c, fat_length = d\<rparr>
      | _ \<Rightarrow> Inl OutOfBounds)"

section \<open>Table records\<close>

text \<open>
  \<^verbatim>\<open>fnt_main_entry_t\<close> (fields \<^verbatim>\<open>offset\<close>, \<^verbatim>\<open>next_id\<close>, \<^verbatim>\<open>parent_id\<close>) and \<^verbatim>\<open>fat_entry_t\<close>, both
  8 bytes without padding, copied out of the mapping.
\<close>

record fnt_main_entry =
  fnt_sub_offset :: "32 word"
  fnt_next_id :: "16 word"
  fnt_parent_id :: "16 word"

record fat_entry =
  start_offset :: "32 word"
  end_offset :: "32 word"

definition read_fnt_main_entry :: "byte list \<Rightarrow> nat \<Rightarrow> fnt_main_entry option" where
  "read_fnt_main_entry m a =
     (case peek m a 8 of
        None \<Rightarrow> None
      | Some bs \<Rightarrow>
          Some \<lparr>fnt_sub_offset = of_nat (le_nat (take 4 bs)),
                fnt_next_id = of_nat (le_nat (take 2 (drop 4 bs))),
                fnt_parent_id = of_nat (le_nat (take 2 (drop 6 bs)))\<rparr>)"

definition read_fat_entry :: "byte list \<Rightarrow> nat \<Rightarrow> fat_entry option" where
  "read_fat_entry m a =
     (case peek m a 8 of
        None \<Rightarrow> None
      | Some bs \<Rightarrow>
          Some \<lparr>start_offset = of_nat (le_nat (take 4 bs)),
                end_offset = of_nat (le_nat (take 4 (drop 4 bs)))\<rparr>)"

text \<open>The address of the main record of directory \<open>i\<close>, and of the FAT record of file \<open>i\<close>.\<close>

definition fnt_main_addr :: "nds \<Rightarrow> 16 word \<Rightarrow> nat" where
  "fnt_main_addr g i = unat (fnt_offset g) + unat (i AND NITRO_DIRMASK) * 8"

definition fat_addr :: "nds \<Rightarrow> 16 word \<Rightarrow> nat" where
  "fat_addr g i = unat (fat_offset g) + unat i * 8"

section \<open>Entries\<close>

text \<open>
  \<^verbatim>\<open>nitrofs_entry_t\<close>, its fields under the prefix \<open>ent_\<close>. The sibling list
  (\<^verbatim>\<open>children\<close>, \<^verbatim>\<open>next\<close>) is the list of children, in list order. The \<^verbatim>\<open>parent\<close> pointer
  is followed in two places: by \<^verbatim>\<open>nitro_fill_stat\<close>, which reads the parent's \<^verbatim>\<open>id\<close>, and
  by \<^verbatim>\<open>nitro_readdir\<close> for the attributes of \<^verbatim>\<open>..\<close>. An entry's \<^verbatim>\<open>id\<close> is set once, when the
  entry is initialised, so an entry carries its parent's id (\<open>ent_parent_id\<close>), and
  \<open>nitro_readdir\<close> below takes the parent entry as an argument. \<open>ent_name\<close> holds the
  \<open>len\<close> bytes copied from the image; the source reads a name as a C string, which stops
  at the first zero byte (\<open>c_str\<close>).
\<close>

datatype nitro_type = NITRO_FILE_TYPE | NITRO_DIR_TYPE

datatype nitrofs_entry =
  Entry (ent_type: nitro_type) (ent_parent_id: "16 word") (ent_id: "16 word")
        (ent_size: "32 word") (ent_links: "32 word") (ent_name: "byte list")
        (ent_children: "nitrofs_entry list")

definition c_str :: "byte list \<Rightarrow> byte list" where
  "c_str bs = takeWhile (\<lambda>b. b \<noteq> 0) bs"

definition nitro_init_dir :: "nitrofs_entry \<Rightarrow> 16 word \<Rightarrow> byte list \<Rightarrow> nitrofs_entry" where
  "nitro_init_dir parent i nm = Entry NITRO_DIR_TYPE (ent_id parent) i 0 2 nm []"

definition nitro_init_file ::
  "nitrofs_entry \<Rightarrow> fat_entry \<Rightarrow> 16 word \<Rightarrow> byte list \<Rightarrow> nitrofs_entry" where
  "nitro_init_file parent fe i nm =
     Entry NITRO_FILE_TYPE (ent_id parent) i (end_offset fe - start_offset fe) 2 nm []"

text \<open>The root is its own parent: \<^verbatim>\<open>nitro_init_dir(root, root, NITRO_ROOT)\<close>.\<close>

definition init_root :: nitrofs_entry where
  "init_root = Entry NITRO_DIR_TYPE NITRO_ROOT NITRO_ROOT 0 2 [] []"

text \<open>
  The three updates of the directory being filled: \<^verbatim>\<open>*last = next\<close>,
  \<^verbatim>\<open>dir->links += 1\<close> and \<^verbatim>\<open>dir->size += n\<close> (\<^verbatim>\<open>uint32_t\<close>, so the sum wraps).
\<close>

fun append_child :: "nitrofs_entry \<Rightarrow> nitrofs_entry \<Rightarrow> nitrofs_entry" where
  "append_child (Entry t pid i sz lk nm cs) c = Entry t pid i sz lk nm (cs @ [c])"

fun add_link :: "nitrofs_entry \<Rightarrow> nitrofs_entry" where
  "add_link (Entry t pid i sz lk nm cs) = Entry t pid i sz (lk + 1) nm cs"

fun add_size :: "nitrofs_entry \<Rightarrow> nat \<Rightarrow> nitrofs_entry" where
  "add_size (Entry t pid i sz lk nm cs) n = Entry t pid i (sz + of_nat n) lk nm cs"

section \<open>The tree builder\<close>

text \<open>
  \<^verbatim>\<open>nitro_build_subdir\<close>: the \<^verbatim>\<open>while(*p != 0)\<close> loop over one directory's subentry
  stream, with \<open>dir\<close> the directory being filled, \<open>p\<close> the address of the next subentry
  and \<open>next_id\<close> the running file id. A subdirectory subentry recurses into the same
  function before the loop goes on. Each iteration and each call costs one unit of
  fuel.
\<close>

fun subdir_loop ::
  "nat \<Rightarrow> nds \<Rightarrow> nitrofs_entry \<Rightarrow> nat \<Rightarrow> 16 word \<Rightarrow> failure + nitrofs_entry" where
  "subdir_loop 0 g dir p next_id = Inl OutOfFuel"
| "subdir_loop (Suc k) g dir p next_id =
     (case byte_at (nds_mapping g) p of
        None \<Rightarrow> Inl OutOfBounds
      | Some b \<Rightarrow>
          if b = 0 then Inr dir
          else
            let len = unat (b AND 0x7F) in
            (case peek (nds_mapping g) (p + 1) len of
               None \<Rightarrow> Inl OutOfBounds
             | Some nm \<Rightarrow>
                 if b AND 0x80 \<noteq> 0 then
                   (case read_u16 (nds_mapping g) (p + len + 1) of
                      None \<Rightarrow> Inl OutOfBounds
                    | Some i \<Rightarrow>
                        (case read_fnt_main_entry (nds_mapping g) (fnt_main_addr g i) of
                           None \<Rightarrow> Inl OutOfBounds
                         | Some entry \<Rightarrow>
                             (case subdir_loop k g (nitro_init_dir dir i nm)
                                     (unat (fnt_offset g) + unat (fnt_sub_offset entry))
                                     (fnt_next_id entry) of
                                Inl e \<Rightarrow> Inl e
                              | Inr sub \<Rightarrow>
                                  subdir_loop k g
                                    (append_child (add_size (add_link dir) (len + 3)) sub)
                                    (p + 2 + (len + 1)) next_id)))
                 else
                   (case read_fat_entry (nds_mapping g) (fat_addr g next_id) of
                      None \<Rightarrow> Inl OutOfBounds
                    | Some fe \<Rightarrow>
                        subdir_loop k g
                          (append_child (add_size dir (len + 1))
                             (nitro_init_file dir fe next_id nm))
                          (p + (len + 1)) (next_id + 1))))"

definition nitro_build_subdir ::
  "nat \<Rightarrow> nds \<Rightarrow> nitrofs_entry \<Rightarrow> fnt_main_entry \<Rightarrow> failure + nitrofs_entry" where
  "nitro_build_subdir k g dir entry =
     subdir_loop k g dir (unat (fnt_offset g) + unat (fnt_sub_offset entry))
       (fnt_next_id entry)"

text \<open>\<^verbatim>\<open>nitro_build_tree\<close>: the root's main record is the first of the name table.\<close>

definition nitro_build_tree :: "nat \<Rightarrow> nds \<Rightarrow> failure + nitrofs_entry" where
  "nitro_build_tree k g =
     (case read_fnt_main_entry (nds_mapping g) (unat (fnt_offset g)) of
        None \<Rightarrow> Inl OutOfBounds
      | Some entry \<Rightarrow> nitro_build_subdir k g init_root entry)"

section \<open>Path traversal\<close>

text \<open>
  \<^verbatim>\<open>nitro_traverse_path\<close>. A path is the content of a C string: the bytes before the
  first zero byte of the buffer (\<open>c_str\<close>). \<^verbatim>\<open>strchr(path, '/')\<close> finds the first
  separator; the component before it is compared with each child's name
  (\<^verbatim>\<open>strlen(entry->name) == p-path && memcmp(path, entry->name, p-path) == 0\<close>: the
  child's name, as a C string, is the component), the first match becomes \<open>dir\<close>, and
  when no child matches \<open>dir\<close> is left as it is. The last component is compared with
  \<^verbatim>\<open>strcmp\<close>, and no match is \<^verbatim>\<open>NULL\<close> (\<open>None\<close>).
\<close>

definition SLASH :: byte where "SLASH = 0x2F"

definition find_child :: "nitrofs_entry \<Rightarrow> byte list \<Rightarrow> nitrofs_entry option" where
  "find_child dir nm = find (\<lambda>e. c_str (ent_name e) = nm) (ent_children dir)"

definition descend :: "nitrofs_entry \<Rightarrow> byte list \<Rightarrow> nitrofs_entry" where
  "descend dir nm = (case find_child dir nm of Some e \<Rightarrow> e | None \<Rightarrow> dir)"

function traverse_loop :: "nitrofs_entry \<Rightarrow> byte list \<Rightarrow> nitrofs_entry option" where
  "traverse_loop dir path =
     (if SLASH \<in> set path then
        traverse_loop (descend dir (takeWhile (\<lambda>c. c \<noteq> SLASH) path))
          (tl (dropWhile (\<lambda>c. c \<noteq> SLASH) path))
      else find_child dir path)"
  by pat_completeness auto
termination
proof (relation "measure (\<lambda>(dir, path). length path)")
  show "wf (measure (\<lambda>(dir, path). length path))" by simp
next
  fix dir :: nitrofs_entry and path :: "byte list"
  assume "SLASH \<in> set path"
  then have "dropWhile (\<lambda>c. c \<noteq> SLASH) path \<noteq> []" by simp
  then have "length (tl (dropWhile (\<lambda>c. c \<noteq> SLASH) path))
      < length (dropWhile (\<lambda>c. c \<noteq> SLASH) path)" by simp
  also have "\<dots> \<le> length path" by (rule length_dropWhile_le)
  finally show "((descend dir (takeWhile (\<lambda>c. c \<noteq> SLASH) path),
       tl (dropWhile (\<lambda>c. c \<noteq> SLASH) path)), (dir, path))
      \<in> measure (\<lambda>(dir, path). length path)" by simp
qed

text \<open>
  The whole function: the root for the path \<^verbatim>\<open>"/"\<close>; otherwise \<^verbatim>\<open>++path\<close> steps
  over the first byte, whatever it is. On the empty string that step leaves the
  string (undefined behaviour: \<open>OutOfBounds\<close>).
\<close>

definition nitro_traverse_path ::
  "nitrofs_entry \<Rightarrow> byte list \<Rightarrow> failure + nitrofs_entry option" where
  "nitro_traverse_path root buf =
     (let path = c_str buf in
      if path = [SLASH] then Inr (Some root)
      else (case path of
              [] \<Rightarrow> Inl OutOfBounds
            | c # rest \<Rightarrow> Inr (traverse_loop root rest)))"

section \<open>Attributes\<close>

text \<open>
  \<^verbatim>\<open>nitro_fill_stat\<close>, for the fields the image determines (the owner and the three
  times come from the environment). \<^verbatim>\<open>st_ino\<close> is computed in \<^verbatim>\<open>uint32_t\<close> and stored
  in the 64-bit \<^verbatim>\<open>ino_t\<close>.
\<close>

record stat =
  st_dev :: "64 word"
  st_ino :: "64 word"
  st_nlink :: "64 word"
  st_rdev :: "64 word"
  st_size :: "64 word"
  st_blksize :: "64 word"
  st_blocks :: "64 word"
  st_mode :: "32 word"

definition NITRO_DIR_MODE :: "32 word" where "NITRO_DIR_MODE = 0x416D"
definition NITRO_FILE_MODE :: "32 word" where "NITRO_FILE_MODE = 0x8124"

definition nitro_ino :: "nitrofs_entry \<Rightarrow> 32 word" where
  "nitro_ino entry = push_bit 8 (ucast (ent_parent_id entry)) OR ucast (ent_id entry)"

definition nitro_fill_stat :: "nitrofs_entry \<Rightarrow> stat" where
  "nitro_fill_stat entry =
     \<lparr>st_dev = 0,
      st_ino = ucast (nitro_ino entry),
      st_nlink = ucast (ent_links entry),
      st_rdev = 0,
      st_size = ucast (ent_size entry),
      st_blksize = 4096,
      st_blocks = (ucast (ent_size entry) + 4096 - 1) div 4096,
      st_mode = (if ent_type entry = NITRO_DIR_TYPE then NITRO_DIR_MODE
                 else NITRO_FILE_MODE)\<rparr>"

definition ENOENT :: int where "ENOENT = 2"
definition EINVAL :: int where "EINVAL = 22"

text \<open>\<^verbatim>\<open>nitro_getattr\<close>: the error number, or the filled \<^verbatim>\<open>stat\<close>.\<close>

definition nitro_getattr :: "nitrofs_entry \<Rightarrow> byte list \<Rightarrow> failure + (int + stat)" where
  "nitro_getattr root path =
     (case nitro_traverse_path root path of
        Inl e \<Rightarrow> Inl e
      | Inr None \<Rightarrow> Inr (Inl (- ENOENT))
      | Inr (Some entry) \<Rightarrow> Inr (Inr (nitro_fill_stat entry)))"

section \<open>Reading a directory\<close>

text \<open>
  \<^verbatim>\<open>nitro_readdir\<close>. The framework's \<^verbatim>\<open>filler\<close> adds a name to the listing buffer and
  returns 0, or returns 1 and adds nothing when the buffer is full; the buffer is the
  list of the names added with their attributes and next offsets, and \<open>room\<close> is the
  number of names the buffer still takes. \<open>parent\<close> stands for \<^verbatim>\<open>entry->parent\<close>.
\<close>

type_synonym dirent = "byte list \<times> stat \<times> int"

definition filler :: "nat \<Rightarrow> dirent list \<Rightarrow> dirent \<Rightarrow> dirent list \<times> bool" where
  "filler room buf d = (if length buf < room then (buf @ [d], False) else (buf, True))"

text \<open>
  The \<^verbatim>\<open>for\<close> loop over the children, \<open>off\<close> counting from 2: a child is added
  when \<open>off\<close> is the wanted offset, which then moves on by one.
\<close>

fun readdir_loop ::
  "nat \<Rightarrow> nitrofs_entry list \<Rightarrow> int \<Rightarrow> int \<Rightarrow> dirent list \<Rightarrow> dirent list" where
  "readdir_loop room [] off offset buf = buf"
| "readdir_loop room (child # rest) off offset buf =
     (if off = offset then
        (case filler room buf (c_str (ent_name child), nitro_fill_stat child, offset + 1) of
           (buf', full) \<Rightarrow>
             if full then buf' else readdir_loop room rest (off + 1) (offset + 1) buf')
      else readdir_loop room rest (off + 1) offset buf)"

definition DOT :: "byte list" where "DOT = [0x2E]"
definition DOTDOT :: "byte list" where "DOTDOT = [0x2E, 0x2E]"

definition nitro_readdir ::
  "nat \<Rightarrow> nitrofs_entry \<Rightarrow> nitrofs_entry \<Rightarrow> int \<Rightarrow> dirent list" where
  "nitro_readdir room parent entry offset =
     (case (if offset = 0 then
              (case filler room [] (DOT, nitro_fill_stat entry, offset + 1) of
                 (buf, full) \<Rightarrow> (buf, full, offset + 1))
            else ([], False, offset)) of
        (buf1, full1, offset1) \<Rightarrow>
          if full1 then buf1
          else
            (case (if offset1 = 1 then
                     (case filler room buf1 (DOTDOT, nitro_fill_stat parent, offset1 + 1) of
                        (buf, full) \<Rightarrow> (buf, full, offset1 + 1))
                   else (buf1, False, offset1)) of
               (buf2, full2, offset2) \<Rightarrow>
                 if full2 then buf2
                 else readdir_loop room (ent_children entry) 2 offset2 buf2))"

section \<open>Reading a file\<close>

text \<open>
  \<^verbatim>\<open>nitro_read\<close>, with \<open>sz\<close> the \<^verbatim>\<open>size_t size\<close> and \<open>off\<close> the \<^verbatim>\<open>off_t offset\<close> (read
  as signed). The result is the \<^verbatim>\<open>int\<close> returned and the bytes copied into the buffer.
  \<^verbatim>\<open>offset >= entry->size\<close> compares as \<^verbatim>\<open>long\<close>; \<^verbatim>\<open>offset + size > entry->size\<close>
  is computed in \<^verbatim>\<open>size_t\<close> and wraps; the returned \<^verbatim>\<open>size\<close> is cut to \<^verbatim>\<open>int\<close>.
  The \<^verbatim>\<open>memcpy\<close> copies from \<^verbatim>\<open>nds_mapping + fat_entry.start_offset\<close>.
\<close>

definition nitro_read ::
  "nds \<Rightarrow> nitrofs_entry \<Rightarrow> 64 word \<Rightarrow> 64 word \<Rightarrow> failure + (int \<times> byte list)" where
  "nitro_read g entry sz off =
     (if sint off < 0 then Inr (- EINVAL, [])
      else if uint (ent_size entry) \<le> sint off then Inr (0, [])
      else
        (case read_fat_entry (nds_mapping g) (fat_addr g (ent_id entry)) of
           None \<Rightarrow> Inl OutOfBounds
         | Some fe \<Rightarrow>
             let sz' = (if ucast (ent_size entry) < off + sz
                        then ucast (ent_size entry) - off else sz) in
             (case peek (nds_mapping g) (unat (start_offset fe)) (unat sz') of
                None \<Rightarrow> Inl OutOfBounds
              | Some bs \<Rightarrow> Inr (sint (ucast sz' :: 32 word), bs))))"

section \<open>The shape of a built tree\<close>

text \<open>
  The notions the properties below are stated with. \<open>entries\<close> lists a tree's entries,
  parents before children, siblings in order. \<open>enc_size\<close> is the number of bytes of
  the subentry an entry was decoded from: the length/type byte, the name, and for a
  subdirectory the 2-byte directory id.
\<close>

fun entries :: "nitrofs_entry \<Rightarrow> nitrofs_entry list" where
  "entries (Entry t pid i sz lk nm cs) = Entry t pid i sz lk nm cs # concat (map entries cs)"

definition enc_size :: "nitrofs_entry \<Rightarrow> nat" where
  "enc_size c = 1 + length (ent_name c) + (if ent_type c = NITRO_DIR_TYPE then 2 else 0)"

definition is_dir :: "nitrofs_entry \<Rightarrow> bool" where
  "is_dir c = (ent_type c = NITRO_DIR_TYPE)"

definition is_file :: "nitrofs_entry \<Rightarrow> bool" where
  "is_file c = (ent_type c = NITRO_FILE_TYPE)"

text \<open>
  \<open>grow e new\<close> is the directory \<open>e\<close> after the loop has added the children \<open>new\<close>.
\<close>

definition grow :: "nitrofs_entry \<Rightarrow> nitrofs_entry list \<Rightarrow> nitrofs_entry" where
  "grow e new =
     Entry (ent_type e) (ent_parent_id e) (ent_id e)
       (ent_size e + of_nat (sum_list (map enc_size new)))
       (ent_links e + of_nat (length (filter is_dir new)))
       (ent_name e) (ent_children e @ new)"

text \<open>
  \<open>built g d p n new\<close>: the loop of \<^verbatim>\<open>nitro_build_subdir\<close>, started at address \<open>p\<close> with
  running file id \<open>n\<close> in a directory of id \<open>d\<close>, returns after adding the children
  \<open>new\<close>. One rule for each way through the loop body.
\<close>

inductive built :: "nds \<Rightarrow> 16 word \<Rightarrow> nat \<Rightarrow> 16 word \<Rightarrow> nitrofs_entry list \<Rightarrow> bool"
  for g :: nds where
  built_end: "byte_at (nds_mapping g) p = Some 0 \<Longrightarrow> built g d p n []"
| built_file:
    "byte_at (nds_mapping g) p = Some b \<Longrightarrow> b \<noteq> 0 \<Longrightarrow> b AND 0x80 = 0 \<Longrightarrow>
     peek (nds_mapping g) (p + 1) (unat (b AND 0x7F)) = Some nm \<Longrightarrow>
     read_fat_entry (nds_mapping g) (fat_addr g n) = Some fe \<Longrightarrow>
     built g d (p + (unat (b AND 0x7F) + 1)) (n + 1) rest \<Longrightarrow>
     built g d p n
       (Entry NITRO_FILE_TYPE d n (end_offset fe - start_offset fe) 2 nm [] # rest)"
| built_dir:
    "byte_at (nds_mapping g) p = Some b \<Longrightarrow> b \<noteq> 0 \<Longrightarrow> b AND 0x80 \<noteq> 0 \<Longrightarrow>
     peek (nds_mapping g) (p + 1) (unat (b AND 0x7F)) = Some nm \<Longrightarrow>
     read_u16 (nds_mapping g) (p + unat (b AND 0x7F) + 1) = Some i \<Longrightarrow>
     read_fnt_main_entry (nds_mapping g) (fnt_main_addr g i) = Some me \<Longrightarrow>
     built g i (unat (fnt_offset g) + unat (fnt_sub_offset me)) (fnt_next_id me) sub \<Longrightarrow>
     built g d (p + 2 + (unat (b AND 0x7F) + 1)) n rest \<Longrightarrow>
     built g d p n (grow (Entry NITRO_DIR_TYPE d i 0 2 nm []) sub # rest)"

text \<open>
  The subentry stream as the image format describes it: records of a length/type byte
  (high bit: subdirectory; low 7 bits: name length), the name, and for a subdirectory a
  2-byte directory id, up to a zero length/type byte. \<open>stream_records m p\<close> is the list
  of the records' kinds and names in stream order, or \<open>None\<close> when the stream leaves
  the image before its end.
\<close>

function stream_records :: "byte list \<Rightarrow> nat \<Rightarrow> (nitro_type \<times> byte list) list option" where
  "stream_records m p =
     (case byte_at m p of
        None \<Rightarrow> None
      | Some b \<Rightarrow>
          if b = 0 then Some []
          else
            (case peek m (p + 1) (unat (b AND 0x7F)) of
               None \<Rightarrow> None
             | Some nm \<Rightarrow>
                 if b AND 0x80 \<noteq> 0 then
                   (case read_u16 m (p + unat (b AND 0x7F) + 1) of
                      None \<Rightarrow> None
                    | Some i \<Rightarrow>
                        map_option (Cons (NITRO_DIR_TYPE, nm))
                          (stream_records m (p + 2 + (unat (b AND 0x7F) + 1))))
                 else
                   map_option (Cons (NITRO_FILE_TYPE, nm))
                     (stream_records m (p + (unat (b AND 0x7F) + 1)))))"
  by pat_completeness auto
termination
  by (relation "measure (\<lambda>(m, p). length m - p)")
     (auto simp: byte_at_def split: if_splits)

declare stream_records.simps [simp del]



text \<open>
  A directory of a built tree, seen from the image: its main record is the one its id
  designates, its children are what the loop returns on that record's stream, and its
  size and link count are the sums over them.
\<close>

definition dir_built :: "nds \<Rightarrow> nitrofs_entry \<Rightarrow> bool" where
  "dir_built g D =
     (\<exists>me. read_fnt_main_entry (nds_mapping g) (fnt_main_addr g (ent_id D)) = Some me \<and>
        built g (ent_id D) (unat (fnt_offset g) + unat (fnt_sub_offset me)) (fnt_next_id me)
          (ent_children D) \<and>
        ent_size D = of_nat (sum_list (map enc_size (ent_children D))) \<and>
        ent_links D = 2 + of_nat (length (filter is_dir (ent_children D))))"

text \<open>A file entry's size is that of the FAT record its id designates.\<close>

definition file_from_fat :: "nds \<Rightarrow> nitrofs_entry \<Rightarrow> bool" where
  "file_from_fat g c =
     (\<exists>fe. read_fat_entry (nds_mapping g) (fat_addr g (ent_id c)) = Some fe \<and>
        ent_size c = end_offset fe - start_offset fe)"

text \<open>
  The whole listing of a directory, as \<^verbatim>\<open>nitro_readdir\<close> hands it to the \<^verbatim>\<open>filler\<close> entry by
  entry: \<^verbatim>\<open>.\<close> with the directory's attributes, \<^verbatim>\<open>..\<close> with the parent's, then the children
  in list order, each with the offset of the entry after it (\<open>child_dirents off\<close> lists
  children whose first is at offset \<open>off\<close>).
\<close>

fun child_dirents :: "int \<Rightarrow> nitrofs_entry list \<Rightarrow> dirent list" where
  "child_dirents off [] = []"
| "child_dirents off (c # cs) =
     (c_str (ent_name c), nitro_fill_stat c, off + 1) # child_dirents (off + 1) cs"

definition listing :: "nitrofs_entry \<Rightarrow> nitrofs_entry \<Rightarrow> dirent list" where
  "listing parent entry =
     (DOT, nitro_fill_stat entry, 1) # (DOTDOT, nitro_fill_stat parent, 2) #
       child_dirents 2 (ent_children entry)"

text \<open>
  Two images of the same size that differ at most in the two declared table lengths of
  the header: the four bytes at \<open>0x44\<close> and the four bytes at \<open>0x4C\<close>.
\<close>

definition same_but_lengths :: "byte list \<Rightarrow> byte list \<Rightarrow> bool" where
  "same_but_lengths m m' =
     (length m' = length m \<and>
      take FNT_LENGTH m' = take FNT_LENGTH m \<and>
      take 4 (drop FAT_OFFSET m') = take 4 (drop FAT_OFFSET m) \<and>
      drop (FAT_LENGTH + 4) m' = drop (FAT_LENGTH + 4) m)"

text \<open>
  \<open>reaches g s n p n'\<close>: the loop started at address \<open>s\<close> with running id \<open>n\<close> arrives at
  address \<open>p\<close> with running id \<open>n'\<close>, every subdirectory before \<open>p\<close> having been built.
  \<open>expands g (s, n) (s', n')\<close>: the loop started at \<open>(s, n)\<close> arrives at a subdirectory
  subentry and calls itself on the stream \<open>s'\<close> and first file id \<open>n'\<close> of that
  subentry's main record.
\<close>

inductive reaches :: "nds \<Rightarrow> nat \<Rightarrow> 16 word \<Rightarrow> nat \<Rightarrow> 16 word \<Rightarrow> bool"
  for g :: nds and s :: nat and n :: "16 word" where
  reaches_start: "reaches g s n s n"
| reaches_file:
    "reaches g s n p n' \<Longrightarrow>
     byte_at (nds_mapping g) p = Some b \<Longrightarrow> b \<noteq> 0 \<Longrightarrow> b AND 0x80 = 0 \<Longrightarrow>
     peek (nds_mapping g) (p + 1) (unat (b AND 0x7F)) = Some nm \<Longrightarrow>
     read_fat_entry (nds_mapping g) (fat_addr g n') = Some fe \<Longrightarrow>
     reaches g s n (p + (unat (b AND 0x7F) + 1)) (n' + 1)"
| reaches_dir:
    "reaches g s n p n' \<Longrightarrow>
     byte_at (nds_mapping g) p = Some b \<Longrightarrow> b \<noteq> 0 \<Longrightarrow> b AND 0x80 \<noteq> 0 \<Longrightarrow>
     peek (nds_mapping g) (p + 1) (unat (b AND 0x7F)) = Some nm \<Longrightarrow>
     read_u16 (nds_mapping g) (p + unat (b AND 0x7F) + 1) = Some i \<Longrightarrow>
     read_fnt_main_entry (nds_mapping g) (fnt_main_addr g i) = Some me \<Longrightarrow>
     built g i (unat (fnt_offset g) + unat (fnt_sub_offset me)) (fnt_next_id me) sub \<Longrightarrow>
     reaches g s n (p + 2 + (unat (b AND 0x7F) + 1)) n'"

inductive expands :: "nds \<Rightarrow> nat \<times> 16 word \<Rightarrow> nat \<times> 16 word \<Rightarrow> bool" for g :: nds where
  expandsI:
    "reaches g s n p n' \<Longrightarrow>
     byte_at (nds_mapping g) p = Some b \<Longrightarrow> b \<noteq> 0 \<Longrightarrow> b AND 0x80 \<noteq> 0 \<Longrightarrow>
     peek (nds_mapping g) (p + 1) (unat (b AND 0x7F)) = Some nm \<Longrightarrow>
     read_u16 (nds_mapping g) (p + unat (b AND 0x7F) + 1) = Some i \<Longrightarrow>
     read_fnt_main_entry (nds_mapping g) (fnt_main_addr g i) = Some me \<Longrightarrow>
     expands g (s, n) (unat (fnt_offset g) + unat (fnt_sub_offset me), fnt_next_id me)"


section \<open>Paths by components\<close>

text \<open>
  \<open>mk_path comps final\<close> is the path \<^verbatim>\<open>/c1/c2/.../cn/final\<close>: the intermediate components
  \<open>comps\<close>, each followed by a separator, then the last component. A component holds
  neither a separator nor a zero byte. \<open>no_empty_names root\<close>: no child in the tree
  has a name that is empty as a C string.
\<close>

definition mk_path :: "byte list list \<Rightarrow> byte list \<Rightarrow> byte list" where
  "mk_path comps final = SLASH # concat (map (\<lambda>c. c @ [SLASH]) comps) @ final"

definition component :: "byte list \<Rightarrow> bool" where
  "component c = (SLASH \<notin> set c \<and> 0 \<notin> set c)"

definition no_empty_names :: "nitrofs_entry \<Rightarrow> bool" where
  "no_empty_names root =
     list_all (\<lambda>D. list_all (\<lambda>c. c_str (ent_name c) \<noteq> []) (ent_children D)) (entries root)"

section \<open>Synthetic images\<close>

text \<open>
  Small images laid out as the format prescribes: 64 bytes of header before the four
  table fields at \<open>0x40\<close>, the name table at \<open>0x50\<close> (main records of 8 bytes, then the
  subentry streams), the allocation table, the file data. Each comes with the globals
  \<^verbatim>\<open>main\<close> reads from it.

  \<open>bac\<close>: the root holds the file \<^verbatim>\<open>B\<close> (id 1), the directory \<^verbatim>\<open>A\<close> (id \<open>0xF001\<close>, holding
  the file \<^verbatim>\<open>x\<close>, id 0) and the file \<^verbatim>\<open>C\<close> (id 2), declared in this order.
\<close>

definition bac_bytes :: "byte list" where
  "bac_bytes =
     replicate 64 0 @
     [80, 0, 0, 0, 28, 0, 0, 0, 108, 0, 0, 0, 24, 0, 0, 0, 16, 0, 0, 0, 1, 0, 2, 0, 25, 0, 0, 0, 0, 0, 0, 240, 1, 66, 129, 65, 1, 240, 1, 67, 0, 1, 120, 0, 132, 0, 0, 0, 134, 0, 0, 0, 134, 0, 0, 0, 138, 0, 0, 0, 138, 0, 0, 0, 139, 0, 0, 0, 17, 18, 33, 34, 35, 36, 49]"

definition bac :: nds where
  "bac = \<lparr>nds_mapping = bac_bytes, fnt_offset = 80, fnt_length = 28,
     fat_offset = 108, fat_length = 24\<rparr>"

text \<open>The tree the builder makes of \<open>bac\<close>.\<close>

definition bac_x :: nitrofs_entry where
  "bac_x = Entry NITRO_FILE_TYPE 0xF001 0 2 2 [0x78] []"
definition bac_A :: nitrofs_entry where
  "bac_A = Entry NITRO_DIR_TYPE 0xF000 0xF001 2 2 [0x41] [bac_x]"
definition bac_B :: nitrofs_entry where
  "bac_B = Entry NITRO_FILE_TYPE 0xF000 1 4 2 [0x42] []"
definition bac_C :: nitrofs_entry where
  "bac_C = Entry NITRO_FILE_TYPE 0xF000 2 1 2 [0x43] []"
definition bac_root :: nitrofs_entry where
  "bac_root = Entry NITRO_DIR_TYPE 0xF000 0xF000 8 3 [] [bac_B, bac_A, bac_C]"

text \<open>\<open>abc\<close>: the root holds the directory \<^verbatim>\<open>a\<close>, which holds the file \<^verbatim>\<open>c\<close>.\<close>

definition abc_bytes :: "byte list" where
  "abc_bytes =
     replicate 64 0 @
     [80, 0, 0, 0, 24, 0, 0, 0, 104, 0, 0, 0, 8, 0, 0, 0, 16, 0, 0, 0, 1, 0, 2, 0, 21, 0, 0, 0, 0, 0, 0, 240, 129, 97, 1, 240, 0, 1, 99, 0, 112, 0, 0, 0, 115, 0, 0, 0, 7, 8, 9]"

definition abc :: nds where
  "abc = \<lparr>nds_mapping = abc_bytes, fnt_offset = 80, fnt_length = 24,
     fat_offset = 104, fat_length = 8\<rparr>"

text \<open>The tree the builder makes of \<open>abc\<close>.\<close>

definition abc_c :: nitrofs_entry where
  "abc_c = Entry NITRO_FILE_TYPE 0xF001 0 3 2 [0x63] []"
definition abc_a :: nitrofs_entry where
  "abc_a = Entry NITRO_DIR_TYPE 0xF000 0xF001 2 2 [0x61] [abc_c]"
definition abc_root :: nitrofs_entry where
  "abc_root = Entry NITRO_DIR_TYPE 0xF000 0xF000 4 3 [] [abc_a]"

text \<open>
  \<open>cyc\<close>: the only subentry of the root is a subdirectory \<^verbatim>\<open>a\<close> whose directory id is
  \<open>0xF000\<close>, the root's own.
\<close>

definition cyc_bytes :: "byte list" where
  "cyc_bytes =
     replicate 64 0 @
     [80, 0, 0, 0, 13, 0, 0, 0, 93, 0, 0, 0, 0, 0, 0, 0, 8, 0, 0, 0, 0, 0, 1, 0, 129, 97, 0, 240, 0]"

definition cyc :: nds where
  "cyc = \<lparr>nds_mapping = cyc_bytes, fnt_offset = 80, fnt_length = 13,
     fat_offset = 93, fat_length = 0\<rparr>"

text \<open>
  \<open>cyc2\<close>: the root holds the file \<^verbatim>\<open>f\<close> and the directory \<^verbatim>\<open>a\<close> (id \<open>0xF001\<close>); \<^verbatim>\<open>a\<close> holds
  the directory \<^verbatim>\<open>b\<close> (id \<open>0xF002\<close>); \<^verbatim>\<open>b\<close> holds the file \<^verbatim>\<open>g\<close> and a subdirectory \<^verbatim>\<open>c\<close>
  whose directory id is \<open>0xF001\<close> again.
\<close>

definition cyc2_bytes :: "byte list" where
  "cyc2_bytes =
     replicate 64 0 @
     [80, 0, 0, 0, 43, 0, 0, 0, 123, 0, 0, 0, 16, 0, 0, 0, 24, 0, 0, 0, 1, 0, 3, 0, 31, 0, 0, 0, 0, 0, 0, 240, 36, 0, 0, 0, 0, 0, 1, 240, 1, 102, 129, 97, 1, 240, 0, 129, 98, 2, 240, 0, 1, 103, 129, 99, 1, 240, 0, 139, 0, 0, 0, 140, 0, 0, 0, 140, 0, 0, 0, 141, 0, 0, 0, 1, 2]"

definition cyc2 :: nds where
  "cyc2 = \<lparr>nds_mapping = cyc2_bytes, fnt_offset = 80, fnt_length = 43,
     fat_offset = 123, fat_length = 16\<rparr>"

text \<open>
  \<open>stray\<close>: the name table is declared 13 bytes long (one main record and the root's
  stream). The root's subdirectory \<^verbatim>\<open>D\<close> has the directory id \<open>0xF00A\<close>, whose main record
  is at offset 80 of the name table: past its declared length, inside the data of the
  only file.
\<close>

definition stray_bytes :: "byte list" where
  "stray_bytes =
     replicate 64 0 @
     [80, 0, 0, 0, 13, 0, 0, 0, 93, 0, 0, 0, 8, 0, 0, 0, 8, 0, 0, 0, 0, 0, 1, 0, 129, 68, 10, 240, 0, 101, 0, 0, 0, 171, 0, 0, 0] @
     replicate 59 238 @
     [88, 0, 0, 0, 0, 0, 0, 240, 1, 120, 0]"

definition stray :: nds where
  "stray = \<lparr>nds_mapping = stray_bytes, fnt_offset = 80, fnt_length = 13,
     fat_offset = 93, fat_length = 8\<rparr>"

text \<open>The tree the builder makes of \<open>stray\<close>.\<close>

definition stray_x :: nitrofs_entry where
  "stray_x = Entry NITRO_FILE_TYPE 0xF00A 0 70 2 [0x78] []"
definition stray_D :: nitrofs_entry where
  "stray_D = Entry NITRO_DIR_TYPE 0xF000 0xF00A 2 2 [0x44] [stray_x]"
definition stray_root :: nitrofs_entry where
  "stray_root = Entry NITRO_DIR_TYPE 0xF000 0xF000 4 3 [] [stray_D]"

text \<open>
  \<open>stray2\<close>: \<open>stray\<close> with the declared name-table length changed to 88, which contains
  the main record of \<^verbatim>\<open>D\<close>; no other byte differs.
\<close>

definition stray2_bytes :: "byte list" where
  "stray2_bytes = take 68 stray_bytes @ [88, 0, 0, 0] @ drop 72 stray_bytes"

definition stray2 :: nds where
  "stray2 = \<lparr>nds_mapping = stray2_bytes, fnt_offset = 80, fnt_length = 88,
     fat_offset = 93, fat_length = 8\<rparr>"

text \<open>
  \<open>big\<close>: the root holds one file, \<^verbatim>\<open>z\<close> (id 0), of \<open>2 ^ 31\<close> bytes, all zero, from
  address 99 to the end of the image.
\<close>

definition big_bytes :: "byte list" where
  "big_bytes =
     replicate 64 0 @
     [80, 0, 0, 0, 11, 0, 0, 0, 91, 0, 0, 0, 8, 0, 0, 0, 8, 0, 0, 0, 0, 0, 1, 0, 1, 122, 0, 99, 0, 0, 0, 99, 0, 0, 128] @
     replicate 2147483648 0"

definition big :: nds where
  "big = \<lparr>nds_mapping = big_bytes, fnt_offset = 80, fnt_length = 11,
     fat_offset = 91, fat_length = 8\<rparr>"

text \<open>The tree the builder makes of \<open>big\<close>.\<close>

definition big_z :: nitrofs_entry where
  "big_z = Entry NITRO_FILE_TYPE 0xF000 0 0x80000000 2 [0x7A] []"
definition big_root :: nitrofs_entry where
  "big_root = Entry NITRO_DIR_TYPE 0xF000 0xF000 2 2 [] [big_z]"

text \<open>
  \<open>ino\<close>: the root's first file id is \<open>0x100\<close>; it holds the directory \<^verbatim>\<open>d\<close> (id
  \<open>0xF001\<close>, first file id 0, holding the file \<^verbatim>\<open>g\<close>) and the file \<^verbatim>\<open>f\<close>.
\<close>

definition ino_bytes :: "byte list" where
  "ino_bytes =
     replicate 64 0 @
     [80, 0, 0, 0, 26, 0, 0, 0, 106, 0, 0, 0, 8, 8, 0, 0, 16, 0, 0, 0, 0, 1, 2, 0, 23, 0, 0, 0, 0, 0, 0, 240, 129, 100, 1, 240, 1, 102, 0, 1, 103, 0, 114, 8, 0, 0, 115, 8] @
     replicate 2042 0 @
     [115, 8, 0, 0, 117, 8, 0, 0, 1, 2, 3]"

definition ino :: nds where
  "ino = \<lparr>nds_mapping = ino_bytes, fnt_offset = 80, fnt_length = 26,
     fat_offset = 106, fat_length = 2056\<rparr>"

text \<open>The tree the builder makes of \<open>ino\<close>.\<close>

definition ino_g :: nitrofs_entry where
  "ino_g = Entry NITRO_FILE_TYPE 0xF001 0 1 2 [0x67] []"
definition ino_d :: nitrofs_entry where
  "ino_d = Entry NITRO_DIR_TYPE 0xF000 0xF001 2 2 [0x64] [ino_g]"
definition ino_f :: nitrofs_entry where
  "ino_f = Entry NITRO_FILE_TYPE 0xF000 0x100 2 2 [0x66] []"
definition ino_root :: nitrofs_entry where
  "ino_root = Entry NITRO_DIR_TYPE 0xF000 0xF000 6 3 [] [ino_d, ino_f]"

section \<open>The builder and the big-step relation\<close>

lemma peek_length: "peek m a n = Some bs \<Longrightarrow> length bs = n"
  by (auto simp: peek_def split: if_splits)

lemma grow_sel [simp]:
  "ent_type (grow e new) = ent_type e"
  "ent_parent_id (grow e new) = ent_parent_id e"
  "ent_id (grow e new) = ent_id e"
  "ent_name (grow e new) = ent_name e"
  "ent_children (grow e new) = ent_children e @ new"
  "ent_size (grow e new) = ent_size e + of_nat (sum_list (map enc_size new))"
  "ent_links (grow e new) = ent_links e + of_nat (length (filter is_dir new))"
  by (simp_all add: grow_def)

lemma grow_Nil [simp]: "grow e [] = e"
  by (cases e) (simp add: grow_def)

lemma grow_file:
  "is_file c \<Longrightarrow> grow (append_child (add_size dir (enc_size c)) c) new = grow dir (c # new)"
  by (cases dir) (simp add: grow_def is_dir_def is_file_def)

lemma grow_dir:
  "is_dir c \<Longrightarrow>
   grow (append_child (add_size (add_link dir) (enc_size c)) c) new = grow dir (c # new)"
  by (cases dir) (simp add: grow_def is_dir_def)

lemma subdir_loop_built:
  "subdir_loop k g dir p n = Inr dir' \<Longrightarrow>
   \<exists>new. built g (ent_id dir) p n new \<and> dir' = grow dir new"
proof (induction k arbitrary: dir p n dir')
  case 0
  then show ?case by simp
next
  case (Suc k)
  let ?m = "nds_mapping g"
  from Suc.prems obtain b where b: "byte_at ?m p = Some b"
    by (auto split: option.splits)
  show ?case
  proof (cases "b = 0")
    case True
    with Suc.prems b have "dir' = dir" by simp
    moreover have "built g (ent_id dir) p n []" using b True by (auto intro: built_end)
    ultimately show ?thesis by (intro exI [of _ "[]"]) simp
  next
    case nz: False
    let ?len = "unat (b AND 0x7F)"
    from Suc.prems b nz obtain nm where nm: "peek ?m (p + 1) ?len = Some nm"
      by (auto simp: Let_def split: option.splits)
    have len: "length nm = ?len" using nm by (rule peek_length)
    show ?thesis
    proof (cases "b AND 0x80 = 0")
      case True
      from Suc.prems b nz nm True obtain fe where
        fe: "read_fat_entry ?m (fat_addr g n) = Some fe"
        by (auto simp: Let_def split: option.splits)
      let ?c = "nitro_init_file dir fe n nm"
      have c: "is_file ?c" "enc_size ?c = ?len + 1"
        by (simp_all add: nitro_init_file_def is_file_def enc_size_def len)
      from Suc.prems b nz nm True fe have
        "subdir_loop k g (append_child (add_size dir (enc_size ?c)) ?c)
           (p + (?len + 1)) (n + 1) = Inr dir'"
        by (simp add: Let_def c)
      from Suc.IH [OF this] obtain new where
        new: "built g (ent_id dir) (p + (?len + 1)) (n + 1) new"
          "dir' = grow (append_child (add_size dir (enc_size ?c)) ?c) new"
        by (cases dir) auto
      have "built g (ent_id dir) p n (?c # new)"
        unfolding nitro_init_file_def using b nz True nm fe new(1) by (rule built_file)
      moreover have "dir' = grow dir (?c # new)" using new(2) c(1) by (simp add: grow_file)
      ultimately show ?thesis by blast
    next
      case False
      from Suc.prems b nz nm False obtain i where
        i: "read_u16 ?m (p + ?len + 1) = Some i"
        by (auto simp: Let_def split: option.splits)
      from Suc.prems b nz nm False i obtain me where
        me: "read_fnt_main_entry ?m (fnt_main_addr g i) = Some me"
        by (auto simp: Let_def split: option.splits)
      let ?d0 = "nitro_init_dir dir i nm"
      from Suc.prems b nz nm False i me obtain sub where
        sub: "subdir_loop k g ?d0 (unat (fnt_offset g) + unat (fnt_sub_offset me))
                (fnt_next_id me) = Inr sub"
        by (auto simp: Let_def split: sum.splits)
      from Suc.IH [OF sub] obtain snew where
        snew: "built g i (unat (fnt_offset g) + unat (fnt_sub_offset me)) (fnt_next_id me) snew"
          "sub = grow ?d0 snew"
        by (auto simp: nitro_init_dir_def)
      have c: "is_dir sub" "enc_size sub = ?len + 3"
        by (simp_all add: snew(2) nitro_init_dir_def is_dir_def enc_size_def len)
      from Suc.prems b nz nm False i me sub have
        "subdir_loop k g (append_child (add_size (add_link dir) (enc_size sub)) sub)
           (p + 2 + (?len + 1)) n = Inr dir'"
        by (simp add: Let_def c)
      from Suc.IH [OF this] obtain new where
        new: "built g (ent_id dir) (p + 2 + (?len + 1)) n new"
          "dir' = grow (append_child (add_size (add_link dir) (enc_size sub)) sub) new"
        by (cases dir) auto
      have "built g (ent_id dir) p n (grow (Entry NITRO_DIR_TYPE (ent_id dir) i 0 2 nm []) snew # new)"
        using b nz False nm i me snew(1) new(1) by (rule built_dir)
      moreover have "dir' = grow dir (sub # new)" using new(2) c(1) by (simp add: grow_dir)
      ultimately show ?thesis unfolding snew(2) nitro_init_dir_def by blast
    qed
  qed
qed


subsection \<open>Every directory of a built tree\<close>

lemma entries_unfold: "entries e = e # concat (map entries (ent_children e))"
  by (cases e) simp

lemma entries_self: "e \<in> set (entries e)"
  by (subst entries_unfold) simp


lemma built_descendants:
  "built g d p n new \<Longrightarrow> c \<in> set new \<Longrightarrow> D \<in> set (entries c) \<Longrightarrow> is_dir D \<Longrightarrow>
   dir_built g D"
proof (induction arbitrary: c rule: built.induct)
  case (built_end p d n)
  then show ?case by simp
next
  case (built_file p b nm n fe d rest)
  then show ?case by (auto simp: is_dir_def)
next
  case (built_dir p b nm i me sub d n rest)
  show ?case
  proof (cases "c \<in> set rest")
    case True
    then show ?thesis using built_dir.IH(2) built_dir.prems by blast
  next
    case False
    with built_dir.prems have c: "c = grow (Entry NITRO_DIR_TYPE d i 0 2 nm []) sub" by simp
    from built_dir.prems(2) have "D = c \<or> (\<exists>c' \<in> set sub. D \<in> set (entries c'))"
      unfolding c by (subst (asm) entries_unfold) auto
    then show ?thesis
    proof
      assume "D = c"
      then show ?thesis
        unfolding dir_built_def c using built_dir.hyps(6,7) by simp
    next
      assume "\<exists>c' \<in> set sub. D \<in> set (entries c')"
      then show ?thesis using built_dir.IH(1) built_dir.prems(3) by blast
    qed
  qed
qed

lemma NITRO_ROOT_addr: "fnt_main_addr g NITRO_ROOT = unat (fnt_offset g)"
  by (simp add: fnt_main_addr_def NITRO_ROOT_def NITRO_DIRMASK_def)

lemma build_tree_dirs:
  assumes "nitro_build_tree k g = Inr root" and "D \<in> set (entries root)" and "is_dir D"
  shows "dir_built g D"
proof -
  from assms(1) obtain me where
    me: "read_fnt_main_entry (nds_mapping g) (unat (fnt_offset g)) = Some me"
    and loop: "subdir_loop k g init_root (unat (fnt_offset g) + unat (fnt_sub_offset me))
                 (fnt_next_id me) = Inr root"
    by (auto simp: nitro_build_tree_def nitro_build_subdir_def split: option.splits)
  from subdir_loop_built [OF loop] obtain new where
    new: "built g NITRO_ROOT (unat (fnt_offset g) + unat (fnt_sub_offset me)) (fnt_next_id me) new"
      "root = grow init_root new"
    by (auto simp: init_root_def)
  from assms(2) have "D = root \<or> (\<exists>c \<in> set new. D \<in> set (entries c))"
    unfolding new(2) by (subst (asm) entries_unfold) (auto simp: init_root_def)
  then show ?thesis
  proof
    assume "D = root"
    then show ?thesis
      unfolding dir_built_def new(2) using me new(1)
      by (simp add: NITRO_ROOT_addr init_root_def)
  next
    assume "\<exists>c \<in> set new. D \<in> set (entries c)"
    then show ?thesis using built_descendants [OF new(1)] assms(3) by blast
  qed
qed

text \<open>
  Every file of a built tree has no children and the size of its allocation record, and
  every child carries the id of the directory it is a child of.
\<close>

lemma built_files:
  "built g d p n new \<Longrightarrow> c \<in> set new \<Longrightarrow> F \<in> set (entries c) \<Longrightarrow> is_file F \<Longrightarrow>
   ent_children F = [] \<and> file_from_fat g F"
proof (induction arbitrary: c rule: built.induct)
  case (built_end p d n)
  then show ?case by simp
next
  case (built_file p b nm n fe d rest)
  then show ?case by (auto simp: file_from_fat_def)
next
  case (built_dir p b nm i me sub d n rest)
  show ?case
  proof (cases "c \<in> set rest")
    case True
    then show ?thesis using built_dir.IH(2) built_dir.prems by blast
  next
    case False
    with built_dir.prems have c: "c = grow (Entry NITRO_DIR_TYPE d i 0 2 nm []) sub" by simp
    from built_dir.prems(2) have "F = c \<or> (\<exists>c' \<in> set sub. F \<in> set (entries c'))"
      unfolding c by (subst (asm) entries_unfold) auto
    then show ?thesis
    proof
      assume "F = c"
      then show ?thesis using built_dir.prems(3) by (simp add: c is_file_def)
    next
      assume "\<exists>c' \<in> set sub. F \<in> set (entries c')"
      then show ?thesis using built_dir.IH(1) built_dir.prems(3) by blast
    qed
  qed
qed

lemma build_tree_files:
  assumes "nitro_build_tree k g = Inr root" and "F \<in> set (entries root)" and "is_file F"
  shows "ent_children F = [] \<and> file_from_fat g F"
proof -
  from assms(1) obtain me where
    me: "read_fnt_main_entry (nds_mapping g) (unat (fnt_offset g)) = Some me"
    and loop: "subdir_loop k g init_root (unat (fnt_offset g) + unat (fnt_sub_offset me))
                 (fnt_next_id me) = Inr root"
    by (auto simp: nitro_build_tree_def nitro_build_subdir_def split: option.splits)
  from subdir_loop_built [OF loop] obtain new where
    new: "built g NITRO_ROOT (unat (fnt_offset g) + unat (fnt_sub_offset me)) (fnt_next_id me) new"
      "root = grow init_root new"
    by (auto simp: init_root_def)
  from assms(2) have "F = root \<or> (\<exists>c \<in> set new. F \<in> set (entries c))"
    unfolding new(2) by (subst (asm) entries_unfold) (auto simp: init_root_def)
  then show ?thesis
  proof
    assume "F = root"
    then show ?thesis using assms(3) by (simp add: new(2) init_root_def is_file_def)
  next
    assume "\<exists>c \<in> set new. F \<in> set (entries c)"
    then show ?thesis using built_files [OF new(1)] assms(3) by blast
  qed
qed

lemma built_parent_ids: "built g d p n new \<Longrightarrow> c \<in> set new \<Longrightarrow> ent_parent_id c = d"
  by (induction rule: built.induct) auto

lemma build_tree_parent_ids:
  assumes "nitro_build_tree k g = Inr root" and "D \<in> set (entries root)"
    and "c \<in> set (ent_children D)"
  shows "ent_parent_id c = ent_id D"
proof (cases "is_dir D")
  case True
  with assms have "dir_built g D" by (auto intro: build_tree_dirs)
  then show ?thesis using assms(3) by (auto simp: dir_built_def dest: built_parent_ids)
next
  case False
  then have "is_file D" by (cases "ent_type D") (simp_all add: is_dir_def is_file_def)
  with assms show ?thesis by (auto dest: build_tree_files)
qed

subsection \<open>File ids, file sizes and stream order\<close>




lemma built_stream_records:
  "built g d p n new \<Longrightarrow>
   stream_records (nds_mapping g) p = Some (map (\<lambda>c. (ent_type c, ent_name c)) new)"
proof (induction rule: built.induct)
  case (built_end p d n)
  then show ?case by (subst stream_records.simps) simp
next
  case (built_file p b nm n fe d rest)
  then show ?case by (subst stream_records.simps) simp
next
  case (built_dir p b nm i me sub d n rest)
  then show ?case by (subst stream_records.simps) simp
qed


subsection \<open>Expansions that do not return\<close>

text \<open>
  Where the relation gives a result, the function gives the same one or runs out of
  fuel; it never reads out of bounds there.
\<close>

lemma built_complete:
  "built g d p n new \<Longrightarrow> ent_id dir = d \<Longrightarrow>
   subdir_loop k g dir p n = Inl OutOfFuel \<or> subdir_loop k g dir p n = Inr (grow dir new)"
proof (induction arbitrary: k dir rule: built.induct)
  case (built_end p d n)
  then show ?case by (cases k) simp_all
next
  case (built_file p b nm n fe d rest)
  show ?case
  proof (cases k)
    case 0
    then show ?thesis by simp
  next
    case (Suc k')
    let ?c = "nitro_init_file dir fe n nm"
    have len: "length nm = unat (b AND 0x7F)" using built_file.hyps(4) by (rule peek_length)
    have c: "is_file ?c" "enc_size ?c = unat (b AND 0x7F) + 1"
      by (simp_all add: nitro_init_file_def is_file_def enc_size_def len)
    let ?dir' = "append_child (add_size dir (enc_size ?c)) ?c"
    have id: "ent_id ?dir' = d" using built_file.prems by (cases dir) simp
    have step: "subdir_loop k g dir p n = subdir_loop k' g ?dir' (p + (unat (b AND 0x7F) + 1)) (n + 1)"
      using built_file.hyps Suc by (simp add: Let_def c)
    have "grow ?dir' rest = grow dir (?c # rest)" using c(1) by (rule grow_file)
    then show ?thesis
      using built_file.IH [OF id, of k'] step built_file.prems by (simp add: nitro_init_file_def)
  qed
next
  case (built_dir p b nm i me sub d n rest)
  show ?case
  proof (cases k)
    case 0
    then show ?thesis by simp
  next
    case (Suc k')
    let ?len = "unat (b AND 0x7F)"
    let ?d0 = "nitro_init_dir dir i nm"
    let ?s = "unat (fnt_offset g) + unat (fnt_sub_offset me)"
    have len: "length nm = ?len" using built_dir.hyps(4) by (rule peek_length)
    have d0: "ent_id ?d0 = i" by (simp add: nitro_init_dir_def)
    from built_dir.IH(1) [OF d0, of k'] show ?thesis
    proof
      assume "subdir_loop k' g ?d0 ?s (fnt_next_id me) = Inl OutOfFuel"
      then show ?thesis using built_dir.hyps Suc by (simp add: Let_def)
    next
      assume sub: "subdir_loop k' g ?d0 ?s (fnt_next_id me) = Inr (grow ?d0 sub)"
      let ?c = "grow ?d0 sub"
      have c: "is_dir ?c" "enc_size ?c = ?len + 3"
        by (simp_all add: nitro_init_dir_def is_dir_def enc_size_def len)
      let ?dir' = "append_child (add_size (add_link dir) (enc_size ?c)) ?c"
      have id: "ent_id ?dir' = d" using built_dir.prems by (cases dir) simp
      have step: "subdir_loop k g dir p n = subdir_loop k' g ?dir' (p + 2 + (?len + 1)) n"
        using built_dir.hyps Suc sub by (simp add: Let_def c)
      have "grow ?dir' rest = grow dir (?c # rest)" using c(1) by (rule grow_dir)
      then show ?thesis
        using built_dir.IH(2) [OF id, of k'] step built_dir.prems
        by (simp add: nitro_init_dir_def)
    qed
  qed
qed

lemma reaches_loop:
  "reaches g s n p n' \<Longrightarrow>
   subdir_loop k g dir s n = Inl OutOfFuel \<or>
   (\<exists>k' dir'. k' \<le> k \<and> subdir_loop k g dir s n = subdir_loop k' g dir' p n')"
proof (induction rule: reaches.induct)
  case reaches_start
  then show ?case by blast
next
  case (reaches_file p n' b nm fe)
  from reaches_file.IH show ?case
  proof
    assume "subdir_loop k g dir s n = Inl OutOfFuel"
    then show ?thesis by simp
  next
    assume "\<exists>k' dir'. k' \<le> k \<and> subdir_loop k g dir s n = subdir_loop k' g dir' p n'"
    then obtain k' dir' where k': "k' \<le> k"
      and eq: "subdir_loop k g dir s n = subdir_loop k' g dir' p n'" by blast
    show ?thesis
    proof (cases k')
      case 0
      then show ?thesis using eq by simp
    next
      case (Suc j)
      then have "subdir_loop k' g dir' p n' =
          subdir_loop j g (append_child (add_size dir' (unat (b AND 0x7F) + 1))
             (nitro_init_file dir' fe n' nm)) (p + (unat (b AND 0x7F) + 1)) (n' + 1)"
        using reaches_file.hyps by (simp add: Let_def)
      moreover have "j \<le> k" using Suc k' by simp
      ultimately show ?thesis using eq by metis
    qed
  qed
next
  case (reaches_dir p n' b nm i me sub)
  from reaches_dir.IH show ?case
  proof
    assume "subdir_loop k g dir s n = Inl OutOfFuel"
    then show ?thesis by simp
  next
    assume "\<exists>k' dir'. k' \<le> k \<and> subdir_loop k g dir s n = subdir_loop k' g dir' p n'"
    then obtain k' dir' where k': "k' \<le> k"
      and eq: "subdir_loop k g dir s n = subdir_loop k' g dir' p n'" by blast
    show ?thesis
    proof (cases k')
      case 0
      then show ?thesis using eq by simp
    next
      case (Suc j)
      let ?d0 = "nitro_init_dir dir' i nm"
      let ?s = "unat (fnt_offset g) + unat (fnt_sub_offset me)"
      have d0: "ent_id ?d0 = i" by (simp add: nitro_init_dir_def)
      from built_complete [OF reaches_dir.hyps(8) d0, of j] show ?thesis
      proof
        assume "subdir_loop j g ?d0 ?s (fnt_next_id me) = Inl OutOfFuel"
        then have "subdir_loop k' g dir' p n' = Inl OutOfFuel"
          using reaches_dir.hyps Suc by (simp add: Let_def)
        then show ?thesis using eq by simp
      next
        assume "subdir_loop j g ?d0 ?s (fnt_next_id me) = Inr (grow ?d0 sub)"
        then have "subdir_loop k' g dir' p n' =
            subdir_loop j g (append_child (add_size (add_link dir') (unat (b AND 0x7F) + 3))
               (grow ?d0 sub)) (p + 2 + (unat (b AND 0x7F) + 1)) n'"
          using reaches_dir.hyps Suc by (simp add: Let_def)
        moreover have "j \<le> k" using Suc k' by simp
        ultimately show ?thesis using eq by metis
      qed
    qed
  qed
qed

lemma expands_diverges:
  assumes "expands g S T"
    and "\<And>j dir'. j < k \<Longrightarrow> subdir_loop j g dir' (fst T) (snd T) = Inl OutOfFuel"
  shows "subdir_loop k g dir (fst S) (snd S) = Inl OutOfFuel"
  using assms
proof (induction rule: expands.induct)
  case (expandsI s n p n' b nm i me)
  from reaches_loop [OF expandsI.hyps(1), of k dir] show ?case
  proof
    assume "subdir_loop k g dir s n = Inl OutOfFuel"
    then show ?thesis by simp
  next
    assume "\<exists>k' dir'. k' \<le> k \<and> subdir_loop k g dir s n = subdir_loop k' g dir' p n'"
    then obtain k' dir' where k': "k' \<le> k"
      and eq: "subdir_loop k g dir s n = subdir_loop k' g dir' p n'" by blast
    show ?thesis
    proof (cases k')
      case 0
      then show ?thesis using eq by simp
    next
      case (Suc j)
      then have "j < k" using k' by simp
      from expandsI.prems [OF this, of "nitro_init_dir dir' i nm"]
      have "subdir_loop k' g dir' p n' = Inl OutOfFuel"
        using expandsI.hyps Suc by (simp add: Let_def)
      then show ?thesis using eq by simp
    qed
  qed
qed

lemma cycle_diverges:
  "(expands g)\<^sup>+\<^sup>+ T T \<Longrightarrow> subdir_loop k g dir (fst T) (snd T) = Inl OutOfFuel"
proof (induction k arbitrary: T dir rule: less_induct)
  case (less k)
  from less.prems obtain T1 where T1: "expands g T T1" "(expands g)\<^sup>*\<^sup>* T1 T"
    by (auto dest: tranclpD)
  then have "(expands g)\<^sup>+\<^sup>+ T1 T1" by (meson rtranclp_into_tranclp1)
  then have "\<And>j dir'. j < k \<Longrightarrow> subdir_loop j g dir' (fst T1) (snd T1) = Inl OutOfFuel"
    using less.IH by blast
  with T1(1) show ?case by (rule expands_diverges)
qed

lemma reach_cycle_diverges:
  assumes "(expands g)\<^sup>*\<^sup>* S T" and "(expands g)\<^sup>+\<^sup>+ T T"
  shows "subdir_loop k g dir (fst S) (snd S) = Inl OutOfFuel"
  using assms
proof (induction arbitrary: k dir rule: converse_rtranclp_induct)
  case base
  then show ?case by (rule cycle_diverges)
next
  case (step S S')
  show ?case using step.hyps(1)
  proof (rule expands_diverges)
    fix j dir'
    show "subdir_loop j g dir' (fst S') (snd S') = Inl OutOfFuel"
      using step.IH step.prems by blast
  qed
qed


text \<open>A result does not depend on the fuel that was enough for it.\<close>

lemma subdir_loop_deterministic:
  assumes "subdir_loop k g dir p n = Inr r" and "subdir_loop k' g dir p n = Inr r'"
  shows "r = r'"
proof -
  from subdir_loop_built [OF assms(1)] obtain new where
    new: "built g (ent_id dir) p n new" "r = grow dir new" by blast
  from built_complete [OF new(1) refl, where k = k'] assms(2) new(2) show ?thesis by simp
qed

lemma build_tree_deterministic:
  "nitro_build_tree k g = Inr r \<Longrightarrow> nitro_build_tree k' g = Inr r' \<Longrightarrow> r = r'"
  by (auto simp: nitro_build_tree_def nitro_build_subdir_def split: option.splits
      dest: subdir_loop_deterministic)

section \<open>Traversal by components\<close>

lemma traverse_loop_final: "SLASH \<notin> set final \<Longrightarrow> traverse_loop dir final = find_child dir final"
  by simp

lemma traverse_loop_comp:
  assumes "SLASH \<notin> set cp"
  shows "traverse_loop dir (cp @ SLASH # rest) = traverse_loop (descend dir cp) rest"
proof -
  have "takeWhile (\<lambda>c. c \<noteq> SLASH) (cp @ SLASH # rest) = cp"
    using assms by (subst takeWhile_append2) auto
  moreover have "dropWhile (\<lambda>c. c \<noteq> SLASH) (cp @ SLASH # rest) = SLASH # rest"
    using assms by (subst dropWhile_append2) auto
  ultimately show ?thesis by (subst traverse_loop.simps) simp
qed

lemma traverse_loop_comps:
  "list_all component comps \<Longrightarrow> component final \<Longrightarrow>
   traverse_loop dir (concat (map (\<lambda>c. c @ [SLASH]) comps) @ final) =
     find_child (foldl descend dir comps) final"
proof (induction comps arbitrary: dir)
  case Nil
  then show ?case by (simp add: component_def traverse_loop_final del: traverse_loop.simps)
next
  case (Cons c comps)
  then have "SLASH \<notin> set c" by (simp add: component_def)
  from traverse_loop_comp [OF this] Cons show ?case by (simp del: traverse_loop.simps)
qed

lemma c_str_id: "0 \<notin> set bs \<Longrightarrow> c_str bs = bs"
  by (simp add: c_str_def takeWhile_eq_all_conv) metis

lemma SLASH_nz: "SLASH \<noteq> 0" by (simp add: SLASH_def)

lemma c_str_mk_path:
  "list_all component comps \<Longrightarrow> component final \<Longrightarrow> c_str (mk_path comps final) = mk_path comps final"
  by (rule c_str_id) (auto simp: mk_path_def component_def list_all_iff SLASH_nz)

lemma mk_path_root: "mk_path comps final = [SLASH] \<longleftrightarrow> comps = [] \<and> final = []"
  by (cases comps) (auto simp: mk_path_def)

lemma traverse_mk_path:
  assumes "list_all component comps" and "component final"
  shows "nitro_traverse_path root (mk_path comps final) =
     (if comps = [] \<and> final = [] then Inr (Some root)
      else Inr (find_child (foldl descend root comps) final))"
proof -
  have "c_str (mk_path comps final) = mk_path comps final" using assms by (rule c_str_mk_path)
  moreover have "traverse_loop root (concat (map (\<lambda>c. c @ [SLASH]) comps) @ final) =
      find_child (foldl descend root comps) final" using assms by (rule traverse_loop_comps)
  ultimately show ?thesis
    unfolding nitro_traverse_path_def Let_def mk_path_root
    by (simp add: mk_path_def del: traverse_loop.simps)
qed

lemma entries_trans:
  "D \<in> set (entries root) \<Longrightarrow> set (entries D) \<subseteq> set (entries root)"
proof (induction root rule: entries.induct)
  case (1 t pid i sz lk nm cs)
  show ?case
  proof (cases "D = Entry t pid i sz lk nm cs")
    case True
    then show ?thesis by simp
  next
    case False
    with "1.prems" obtain c where c: "c \<in> set cs" "D \<in> set (entries c)" by auto
    with "1.IH" have "set (entries D) \<subseteq> set (entries c)" by blast
    with c(1) show ?thesis by auto
  qed
qed

lemma entries_child:
  assumes "D \<in> set (entries root)" and "c \<in> set (ent_children D)"
  shows "c \<in> set (entries root)"
proof -
  have "c \<in> set (entries D)"
    using assms(2) entries_self [of c] by (subst entries_unfold) auto
  with entries_trans [OF assms(1)] show ?thesis by blast
qed

lemma find_child_in: "find_child D nm = Some c \<Longrightarrow> c \<in> set (ent_children D)"
  by (auto simp: find_child_def find_Some_iff)

lemma descend_in: "D \<in> set (entries root) \<Longrightarrow> descend D nm \<in> set (entries root)"
  by (auto simp: descend_def split: option.splits dest: find_child_in entries_child)

lemma descend_empty:
  assumes "no_empty_names root" and "D \<in> set (entries root)"
  shows "descend D [] = D"
proof -
  from assms have "\<forall>c \<in> set (ent_children D). c_str (ent_name c) \<noteq> []"
    by (auto simp: no_empty_names_def list_all_iff)
  then have "find_child D [] = None"
    by (auto simp: find_child_def find_None_iff)
  then show ?thesis by (simp add: descend_def)
qed

lemma foldl_descend_collapse:
  "no_empty_names root \<Longrightarrow> D \<in> set (entries root) \<Longrightarrow>
   foldl descend D (filter (\<lambda>c. c \<noteq> []) comps) = foldl descend D comps"
proof (induction comps arbitrary: D)
  case Nil
  then show ?case by simp
next
  case (Cons c comps)
  show ?case
  proof (cases "c = []")
    case True
    with Cons show ?thesis by (simp add: descend_empty)
  next
    case False
    with Cons show ?thesis by (simp add: descend_in)
  qed
qed

section \<open>Directory listings\<close>

text \<open>
  The loop over the children in its three states: adding (\<open>off\<close> is the wanted offset),
  skipping (\<open>off\<close> is below it) and past it (\<open>off\<close> is above it, and nothing is added any
  more).
\<close>

lemma readdir_loop_emit:
  "readdir_loop room cs off off buf = buf @ take (room - length buf) (child_dirents off cs)"
proof (induction cs arbitrary: off buf)
  case Nil
  then show ?case by simp
next
  case (Cons c cs)
  show ?case
  proof (cases "length buf < room")
    case True
    then obtain r where r: "room - length buf = Suc r" by (cases "room - length buf") auto
    then have "room - length (buf @ [(c_str (ent_name c), nitro_fill_stat c, off + 1)]) = r"
      by simp
    with Cons.IH [of "off + 1" "buf @ [(c_str (ent_name c), nitro_fill_stat c, off + 1)]"] True r
    show ?thesis by (simp add: filler_def)
  next
    case False
    then show ?thesis by (simp add: filler_def)
  qed
qed

lemma readdir_loop_skip:
  "off \<le> offset \<Longrightarrow>
   readdir_loop room cs off offset buf =
     readdir_loop room (drop (nat (offset - off)) cs) offset offset buf"
proof (induction cs arbitrary: off)
  case Nil
  then show ?case by simp
next
  case (Cons c cs)
  show ?case
  proof (cases "off = offset")
    case True
    then show ?thesis by simp
  next
    case False
    with Cons.prems have lt: "off + 1 \<le> offset" by simp
    from False Cons.prems have "nat (offset - off) = Suc (nat (offset - (off + 1)))" by simp
    with Cons.IH [OF lt] False show ?thesis by simp
  qed
qed

lemma readdir_loop_passed:
  "offset < off \<Longrightarrow> readdir_loop room cs off offset buf = buf"
  by (induction cs arbitrary: off) simp_all

lemma child_dirents_drop:
  "drop n (child_dirents off cs) = child_dirents (off + int n) (drop n cs)"
proof (induction cs arbitrary: off n)
  case Nil
  then show ?case by simp
next
  case (Cons c cs)
  then show ?case by (cases n) (simp_all add: add.assoc)
qed

lemma child_dirents_names:
  "map fst (child_dirents off cs) = map (\<lambda>c. c_str (ent_name c)) cs"
  by (induction cs arbitrary: off) simp_all

lemma child_dirents_offsets:
  "map (\<lambda>d. snd (snd d)) (child_dirents off cs) =
     map (\<lambda>j. off + 1 + int j) [0..<length cs]"
proof (induction cs arbitrary: off)
  case Nil
  then show ?case by simp
next
  case (Cons c cs)
  have "[0..<length (c # cs)] = 0 # map Suc [0..<length cs]"
    by (simp add: upt_conv_Cons map_Suc_upt del: upt_Suc)
  then show ?case using Cons.IH [of "off + 1"] by (simp add: add.assoc o_def)
qed

text \<open>\<^verbatim>\<open>nitro_readdir\<close> at every offset.\<close>

lemma readdir_from_two:
  assumes "2 \<le> offset"
  shows "nitro_readdir room parent D offset = take room (drop (nat offset) (listing parent D))"
proof -
  define n where "n = nat (offset - 2)"
  from assms have n: "nat offset = Suc (Suc n)" "offset = 2 + int n"
    by (simp_all add: n_def)
  have "nitro_readdir room parent D offset = readdir_loop room (ent_children D) 2 offset []"
    using assms by (simp add: nitro_readdir_def)
  also have "\<dots> = readdir_loop room (drop n (ent_children D)) offset offset []"
    using readdir_loop_skip [OF assms, of room "ent_children D" "[]"] n by simp
  also have "\<dots> = take room (child_dirents offset (drop n (ent_children D)))"
    by (simp add: readdir_loop_emit)
  also have "child_dirents offset (drop n (ent_children D)) =
      drop n (child_dirents 2 (ent_children D))"
    using n by (simp add: child_dirents_drop)
  finally show ?thesis using n by (simp add: listing_def)
qed

lemma readdir_from_zero:
  "nitro_readdir room parent D 0 = take room (listing parent D)"
proof -
  consider "room = 0" | "room = 1" | r where "room = Suc (Suc r)"
    by (cases room rule: nat.exhaust; auto) (metis One_nat_def not0_implies_Suc)
  then show ?thesis
  proof cases
    case 1
    then show ?thesis by (simp add: nitro_readdir_def filler_def)
  next
    case 2
    then show ?thesis by (simp add: nitro_readdir_def filler_def listing_def)
  next
    case 3
    then show ?thesis
      by (simp add: nitro_readdir_def filler_def listing_def readdir_loop_emit)
  qed
qed

lemma readdir_from_one:
  "nitro_readdir room parent D 1 = take room (drop 1 (listing parent D))"
proof (cases room)
  case 0
  then show ?thesis by (simp add: nitro_readdir_def filler_def)
next
  case (Suc r)
  then show ?thesis
    by (simp add: nitro_readdir_def filler_def listing_def readdir_loop_emit)
qed

lemma readdir_negative:
  "offset < 0 \<Longrightarrow> nitro_readdir room parent D offset = []"
  by (simp add: nitro_readdir_def readdir_loop_passed)

lemma readdir_resumes:
  "nitro_readdir room parent D offset =
     (if offset < 0 then [] else take room (drop (nat offset) (listing parent D)))"
proof -
  consider "offset < 0" | "offset = 0" | "offset = 1" | "2 \<le> offset" by linarith
  then show ?thesis
  proof cases
    case 1
    then show ?thesis by (simp add: readdir_negative)
  next
    case 2
    then show ?thesis by (simp add: readdir_from_zero)
  next
    case 3
    then show ?thesis by (simp add: readdir_from_one)
  next
    case 4
    then show ?thesis by (simp add: readdir_from_two)
  qed
qed

section \<open>Evaluating the builder on the synthetic images\<close>

text \<open>
  Reads of a concrete image are evaluated where they occur, on the image's bytes; the
  loop is unfolded once for each unit of a numeral fuel.
\<close>

lemma peek_eval:
  "m = xs \<Longrightarrow> peek m a n = (if a + n \<le> length xs then Some (take n (drop a xs)) else None)"
  by (simp add: peek_def)

lemma byte_at_eval:
  "m = xs \<Longrightarrow> byte_at m a = (if a < length xs then Some (xs ! a) else None)"
  by (simp add: byte_at_def)

lemma le_nat_zeros: "le_nat (replicate n 0) = 0"
  by (induction n) simp_all

lemma subdir_loop_numeral:
  "subdir_loop (numeral k) g dir p n = subdir_loop (Suc (pred_numeral k)) g dir p n"
  by (simp only: numeral_eq_Suc)

lemmas subdir_loop_step = subdir_loop_numeral [unfolded subdir_loop.simps(2)]

lemmas build_eval =
  read_u32_def read_u16_def read_fnt_main_entry_def read_fat_entry_def fnt_main_addr_def
  fat_addr_def NITRO_ROOT_def NITRO_DIRMASK_def nitro_init_dir_def nitro_init_file_def
  init_root_def nitro_build_subdir_def nitro_build_tree_def subdir_loop_step nth_append
  le_nat_zeros

lemma bac_sel: "nds_mapping bac = bac_bytes" "fnt_offset bac = 80" "fat_offset bac = 108"
  "fnt_length bac = 28" "fat_length bac = 24"
  by (simp_all add: bac_def)
lemmas bac_reads = peek_eval [OF bac_bytes_def] byte_at_eval [OF bac_bytes_def] bac_sel

lemma bac_globals: "load_globals bac_bytes = Inr bac"
  by (simp add: load_globals_def read_u32_def FNT_OFFSET_def FNT_LENGTH_def FAT_OFFSET_def
      FAT_LENGTH_def bac_reads bac_def)

lemma bac_build: "nitro_build_tree 10 bac = Inr bac_root"
  by (simp add: build_eval bac_reads bac_root_def bac_A_def bac_B_def bac_C_def bac_x_def)

lemma abc_sel: "nds_mapping abc = abc_bytes" "fnt_offset abc = 80" "fat_offset abc = 104"
  by (simp_all add: abc_def)
lemmas abc_reads = peek_eval [OF abc_bytes_def] byte_at_eval [OF abc_bytes_def] abc_sel

lemma abc_build: "nitro_build_tree 10 abc = Inr abc_root"
  by (simp add: build_eval abc_reads abc_root_def abc_a_def abc_c_def)

lemma stray_sel: "nds_mapping stray = stray_bytes" "fnt_offset stray = 80" "fat_offset stray = 93"
  "fnt_length stray = 13"
  by (simp_all add: stray_def)
lemmas stray_reads = peek_eval [OF stray_bytes_def] byte_at_eval [OF stray_bytes_def] stray_sel

lemma stray_build: "nitro_build_tree 10 stray = Inr stray_root"
  by (simp add: build_eval stray_reads stray_root_def stray_D_def stray_x_def)

lemma ino_sel: "nds_mapping ino = ino_bytes" "fnt_offset ino = 80" "fat_offset ino = 106"
  by (simp_all add: ino_def)
lemmas ino_reads = peek_eval [OF ino_bytes_def] byte_at_eval [OF ino_bytes_def] ino_sel

lemma ino_build: "nitro_build_tree 10 ino = Inr ino_root"
  by (simp add: build_eval ino_reads ino_root_def ino_d_def ino_f_def ino_g_def)

lemma bac_entries:
  "entries bac_root = [bac_root, bac_B, bac_A, bac_x, bac_C]"
  by (simp add: bac_root_def bac_A_def bac_B_def bac_C_def bac_x_def)

lemma bac_root_sel:
  "ent_type bac_root = NITRO_DIR_TYPE" "ent_id bac_root = 0xF000"
  "ent_children bac_root = [bac_B, bac_A, bac_C]" "ent_size bac_root = 8"
  by (simp_all add: bac_root_def)

lemma bac_child_sel:
  "ent_type bac_B = NITRO_FILE_TYPE" "ent_type bac_A = NITRO_DIR_TYPE"
  "ent_type bac_C = NITRO_FILE_TYPE"
  "ent_id bac_B = 1" "ent_id bac_A = 0xF001" "ent_id bac_C = 2"
  "ent_name bac_B = [0x42]" "ent_name bac_A = [0x41]" "ent_name bac_C = [0x43]"
  "ent_size bac_B = 4"  "ent_size bac_C = 1"
  by (simp_all add: bac_A_def bac_B_def bac_C_def)

lemma stream_records_numeral:
  "stream_records m (numeral p) =
     (case byte_at m (numeral p) of
        None \<Rightarrow> None
      | Some b \<Rightarrow>
          if b = 0 then Some []
          else
            (case peek m (numeral p + 1) (unat (b AND 0x7F)) of
               None \<Rightarrow> None
             | Some nm \<Rightarrow>
                 if b AND 0x80 \<noteq> 0 then
                   (case read_u16 m (numeral p + unat (b AND 0x7F) + 1) of
                      None \<Rightarrow> None
                    | Some i \<Rightarrow>
                        map_option (Cons (NITRO_DIR_TYPE, nm))
                          (stream_records m (numeral p + 2 + (unat (b AND 0x7F) + 1))))
                 else
                   map_option (Cons (NITRO_FILE_TYPE, nm))
                     (stream_records m (numeral p + (unat (b AND 0x7F) + 1)))))"
  by (rule stream_records.simps)

section \<open>Claims about the tree builder\<close>



text \<open>
  C7. After a successful build, the size of every directory of the tree is the sum of
  the encoded sizes of its children: 1 + name length + 2 for a subdirectory, 1 + name
  length for a file. The size is a \<^verbatim>\<open>uint32_t\<close> and the sum is accumulated in it, so the
  equality is one of 32-bit values: the size is the sum modulo \<open>2 ^ 32\<close>, the sum
  itself whenever the directory's stream is shorter than 4 GiB.
\<close>

theorem dir_size_is_encoded_sum:
  assumes "nitro_build_tree k g = Inr root"
    and "D \<in> set (entries root)"
    and "ent_type D = NITRO_DIR_TYPE"
  shows "ent_size D = of_nat (sum_list (map enc_size (ent_children D))) \<and>
         unat (ent_size D) = sum_list (map enc_size (ent_children D)) mod 2 ^ 32"
proof -
  from assms have "dir_built g D" by (auto intro: build_tree_dirs simp: is_dir_def)
  then have "ent_size D = of_nat (sum_list (map enc_size (ent_children D)))"
    by (auto simp: dir_built_def)
  then show ?thesis by (simp add: unat_of_nat)
qed

theorem dir_size_is_encoded_sum_witness:
  "nitro_build_tree 10 bac = Inr bac_root \<and> bac_root \<in> set (entries bac_root) \<and>
   ent_type bac_root = NITRO_DIR_TYPE \<and>
   map enc_size (ent_children bac_root) = [2, 4, 2] \<and>
   unat (ent_size bac_root) = 2 + 4 + 2"
  using dir_size_is_encoded_sum [OF bac_build, of bac_root]
  by (simp add: bac_build bac_entries bac_root_sel bac_child_sel enc_size_def)

lemma listing_names:
  "map fst (listing parent D) = DOT # DOTDOT # map (\<lambda>c. c_str (ent_name c)) (ent_children D)"
  by (simp add: listing_def child_dirents_names)

lemma listing_offsets:
  "map (\<lambda>d. snd (snd d)) (listing parent D) =
     map (\<lambda>j. int j + 1) [0..<length (ent_children D) + 2]"
proof -
  have "[0..<n + 2] = 0 # 1 # map (\<lambda>j. j + 2) [0..<n]" for n
    by (induction n) simp_all
  then show ?thesis
    by (simp add: listing_def child_dirents_offsets o_def add.commute add.left_commute)
qed

lemma readdir_resumed_call:
  "nitro_readdir room parent D (int n) @ nitro_readdir room' parent D (int n + int room) =
     nitro_readdir (room + room') parent D (int n)"
proof -
  have "nat (int n + int room) = room + n" by simp
  then show ?thesis by (simp add: readdir_resumes take_add add.commute)
qed

text \<open>
  C8. After a successful build, the children of every directory of the tree are, in
  kind and name, the records of the directory's subentry stream in stream order. The
  directory's listing is \<^verbatim>\<open>.\<close>, \<^verbatim>\<open>..\<close> and then the children's names in exactly that order,
  each entry handed to the \<^verbatim>\<open>filler\<close> with its own position plus one as the offset to
  resume at; and \<^verbatim>\<open>nitro_readdir\<close> called with any offset adds the entries of the listing
  from that offset on, as many of them as the buffer takes (none for a negative
  offset). A call for \<open>room\<close> entries followed by a call resumed \<open>room\<close> entries further
  on adds what one call with the room of both adds. On the image \<open>bac\<close>, whose root declares
  \<^verbatim>\<open>B\<close>, \<^verbatim>\<open>A\<close>, \<^verbatim>\<open>C\<close>, a buffer of three takes \<^verbatim>\<open>.\<close>, \<^verbatim>\<open>..\<close>, \<^verbatim>\<open>B\<close> and the call resumed at
  offset 3 adds \<^verbatim>\<open>A\<close>, \<^verbatim>\<open>C\<close>.
\<close>

theorem listing_in_stream_order:
  assumes "nitro_build_tree k g = Inr root"
    and "D \<in> set (entries root)"
    and "ent_type D = NITRO_DIR_TYPE"
  shows "\<exists>me. read_fnt_main_entry (nds_mapping g) (fnt_main_addr g (ent_id D)) = Some me \<and>
           stream_records (nds_mapping g) (unat (fnt_offset g) + unat (fnt_sub_offset me)) =
             Some (map (\<lambda>c. (ent_type c, ent_name c)) (ent_children D)) \<and>
           map fst (listing parent D) =
             DOT # DOTDOT # map (\<lambda>c. c_str (ent_name c)) (ent_children D) \<and>
           map (\<lambda>d. snd (snd d)) (listing parent D) =
             map (\<lambda>j. int j + 1) [0..<length (ent_children D) + 2] \<and>
           nitro_readdir room parent D offset =
             (if offset < 0 then [] else take room (drop (nat offset) (listing parent D))) \<and>
           nitro_readdir room parent D (int n) @
               nitro_readdir room' parent D (int n + int room) =
             nitro_readdir (room + room') parent D (int n)"
proof -
  from assms have "dir_built g D" by (auto intro: build_tree_dirs simp: is_dir_def)
  then obtain me where
    me: "read_fnt_main_entry (nds_mapping g) (fnt_main_addr g (ent_id D)) = Some me"
    and b: "built g (ent_id D) (unat (fnt_offset g) + unat (fnt_sub_offset me)) (fnt_next_id me)
              (ent_children D)"
    by (auto simp: dir_built_def)
  show ?thesis
  proof (intro exI conjI)
    show "read_fnt_main_entry (nds_mapping g) (fnt_main_addr g (ent_id D)) = Some me"
      by (rule me)
    show "stream_records (nds_mapping g) (unat (fnt_offset g) + unat (fnt_sub_offset me)) =
        Some (map (\<lambda>c. (ent_type c, ent_name c)) (ent_children D))"
      using b by (rule built_stream_records)
    show "map fst (listing parent D) =
        DOT # DOTDOT # map (\<lambda>c. c_str (ent_name c)) (ent_children D)"
      by (rule listing_names)
    show "map (\<lambda>d. snd (snd d)) (listing parent D) =
        map (\<lambda>j. int j + 1) [0..<length (ent_children D) + 2]"
      by (rule listing_offsets)
    show "nitro_readdir room parent D offset =
        (if offset < 0 then [] else take room (drop (nat offset) (listing parent D)))"
      by (rule readdir_resumes)
    show "nitro_readdir room parent D (int n) @
          nitro_readdir room' parent D (int n + int room) =
        nitro_readdir (room + room') parent D (int n)"
      by (rule readdir_resumed_call)
  qed
qed

theorem listing_in_stream_order_witness:
  "nitro_build_tree 10 bac = Inr bac_root \<and> bac_root \<in> set (entries bac_root) \<and>
   ent_type bac_root = NITRO_DIR_TYPE \<and>
   stream_records bac_bytes 96 =
     Some [(NITRO_FILE_TYPE, [0x42]), (NITRO_DIR_TYPE, [0x41]), (NITRO_FILE_TYPE, [0x43])] \<and>
   map fst (listing bac_root bac_root) = [DOT, DOTDOT, [0x42], [0x41], [0x43]] \<and>
   map (\<lambda>d. snd (snd d)) (listing bac_root bac_root) = [1, 2, 3, 4, 5] \<and>
   map fst (nitro_readdir 5 bac_root bac_root 0) = [DOT, DOTDOT, [0x42], [0x41], [0x43]] \<and>
   map fst (nitro_readdir 3 bac_root bac_root 0) = [DOT, DOTDOT, [0x42]] \<and>
   map (\<lambda>d. snd (snd d)) (nitro_readdir 3 bac_root bac_root 0) = [1, 2, 3] \<and>
   map fst (nitro_readdir 5 bac_root bac_root 3) = [[0x41], [0x43]] \<and>
   map fst (nitro_readdir 1 bac_root bac_root 1) = [DOTDOT] \<and>
   nitro_readdir 5 bac_root bac_root 5 = [] \<and>
   nitro_readdir 5 bac_root bac_root (- 1) = [] \<and>
   nitro_readdir 3 bac_root bac_root 0 @ nitro_readdir 5 bac_root bac_root 3 =
     nitro_readdir 8 bac_root bac_root 0"
  using listing_in_stream_order [OF bac_build, where D = bac_root and parent = bac_root
      and room = 5 and offset = 0 and n = 0 and room' = 0]
    listing_in_stream_order [OF bac_build, where D = bac_root and parent = bac_root
      and room = 3 and offset = 0 and n = 0 and room' = 5]
    listing_in_stream_order [OF bac_build, where D = bac_root and parent = bac_root
      and room = 5 and offset = 3 and n = 0 and room' = 0]
    listing_in_stream_order [OF bac_build, where D = bac_root and parent = bac_root
      and room = 1 and offset = 1 and n = 0 and room' = 0]
    listing_in_stream_order [OF bac_build, where D = bac_root and parent = bac_root
      and room = 5 and offset = 5 and n = 0 and room' = 0]
    listing_in_stream_order [OF bac_build, where D = bac_root and parent = bac_root
      and room = 5 and offset = "- 1" and n = 0 and room' = 0]
    listing_in_stream_order [OF bac_build, where D = bac_root and parent = bac_root
      and room = 8 and offset = 0 and n = 0 and room' = 0]
  by (simp add: bac_build bac_entries bac_root_sel bac_child_sel c_str_def listing_def
      read_fnt_main_entry_def fnt_main_addr_def NITRO_DIRMASK_def bac_reads)

subsection \<open>Self-referential images\<close>

lemma cyc_sel: "nds_mapping cyc = cyc_bytes" "fnt_offset cyc = 80" "fat_offset cyc = 93"
  by (simp_all add: cyc_def)
lemmas cyc_reads = peek_eval [OF cyc_bytes_def] byte_at_eval [OF cyc_bytes_def] cyc_sel

lemma cyc2_sel: "nds_mapping cyc2 = cyc2_bytes" "fnt_offset cyc2 = 80" "fat_offset cyc2 = 123"
  by (simp_all add: cyc2_def)
lemmas cyc2_reads = peek_eval [OF cyc2_bytes_def] byte_at_eval [OF cyc2_bytes_def] cyc2_sel

lemmas table_eval =
  read_u16_def read_fnt_main_entry_def read_fat_entry_def fnt_main_addr_def fat_addr_def
  NITRO_ROOT_def NITRO_DIRMASK_def nth_append le_nat_zeros

lemma cyc_expands: "expands cyc (88, 0) (88, 0)"
  using expandsI [OF reaches_start, of cyc 88 "0x81" "[0x61]" "0xF000"
      "\<lparr>fnt_sub_offset = 8, fnt_next_id = 0, fnt_parent_id = 1\<rparr>" 0]
  by (simp add: table_eval cyc_reads)

lemma cyc_root_record:
  "read_fnt_main_entry (nds_mapping cyc) (unat (fnt_offset cyc)) =
     Some \<lparr>fnt_sub_offset = 8, fnt_next_id = 0, fnt_parent_id = 1\<rparr>"
  by (simp add: table_eval cyc_reads)

lemma build_tree_diverges:
  assumes "read_fnt_main_entry (nds_mapping g) (unat (fnt_offset g)) = Some me"
    and "(expands g)\<^sup>*\<^sup>* (unat (fnt_offset g) + unat (fnt_sub_offset me), fnt_next_id me) T"
    and "(expands g)\<^sup>+\<^sup>+ T T"
  shows "nitro_build_tree k g = Inl OutOfFuel"
  using reach_cycle_diverges [OF assms(2,3), of k init_root] assms(1)
  by (simp add: nitro_build_tree_def nitro_build_subdir_def)

lemma cyc2_root_record:
  "read_fnt_main_entry (nds_mapping cyc2) (unat (fnt_offset cyc2)) =
     Some \<lparr>fnt_sub_offset = 24, fnt_next_id = 1, fnt_parent_id = 3\<rparr>"
  by (simp add: table_eval cyc2_reads)

lemma cyc2_root_a: "expands cyc2 (104, 1) (111, 0)"
proof -
  have "reaches cyc2 104 1 (104 + (unat ((1 :: byte) AND 0x7F) + 1)) (1 + 1)"
    by (rule reaches_file [OF reaches_start, where nm = "[0x66]"
          and fe = "\<lparr>start_offset = 140, end_offset = 141\<rparr>"])
       (simp_all add: table_eval cyc2_reads)
  then have "reaches cyc2 104 1 106 2" by simp
  from expandsI [OF this, of "0x81" "[0x61]" "0xF001"
      "\<lparr>fnt_sub_offset = 31, fnt_next_id = 0, fnt_parent_id = 0xF000\<rparr>"]
  show ?thesis by (simp add: table_eval cyc2_reads)
qed

lemma cyc2_a_b: "expands cyc2 (111, 0) (116, 0)"
  using expandsI [OF reaches_start, of cyc2 111 "0x81" "[0x62]" "0xF002"
      "\<lparr>fnt_sub_offset = 36, fnt_next_id = 0, fnt_parent_id = 0xF001\<rparr>" 0]
  by (simp add: table_eval cyc2_reads)

lemma cyc2_b_a: "expands cyc2 (116, 0) (111, 0)"
proof -
  have "reaches cyc2 116 0 (116 + (unat ((1 :: byte) AND 0x7F) + 1)) (0 + 1)"
    by (rule reaches_file [OF reaches_start, where nm = "[0x67]"
          and fe = "\<lparr>start_offset = 139, end_offset = 140\<rparr>"])
       (simp_all add: table_eval cyc2_reads)
  then have "reaches cyc2 116 0 118 1" by simp
  from expandsI [OF this, of "0x81" "[0x63]" "0xF001"
      "\<lparr>fnt_sub_offset = 31, fnt_next_id = 0, fnt_parent_id = 0xF000\<rparr>"]
  show ?thesis by (simp add: table_eval cyc2_reads)
qed

text \<open>
  C3. The source has no cycle or depth guard, and the build has no \<^verbatim>\<open>CycleDetected\<close> or
  \<^verbatim>\<open>MalformedTree\<close> failure. Stated for what the code does: when the expansion of the
  root reaches (through any number of nested subdirectories, \<open>T\<close> being the stream and
  first file id of one of them) a directory whose own expansion arrives, directly or
  through further subdirectories, at a subentry whose main record gives the stream and
  first file id \<open>T\<close> again, then \<^verbatim>\<open>nitro_build_tree\<close> returns for no amount of fuel: the
  recursion is unbounded.
\<close>

theorem revisited_directory_diverges:
  assumes "read_fnt_main_entry (nds_mapping g) (unat (fnt_offset g)) = Some me"
    and "(expands g)\<^sup>*\<^sup>* (unat (fnt_offset g) + unat (fnt_sub_offset me), fnt_next_id me) T"
    and "(expands g)\<^sup>+\<^sup>+ T T"
  shows "nitro_build_tree k g = Inl OutOfFuel"
  using assms by (rule build_tree_diverges)

text \<open>
  The image \<open>cyc2\<close>: the root's stream (at 104, first file id 1) holds a file and the
  directory \<^verbatim>\<open>a\<close>, whose stream (at 111) holds the directory \<^verbatim>\<open>b\<close>, whose stream (at 116)
  holds a file and a subdirectory with the id of \<^verbatim>\<open>a\<close>.
\<close>

theorem revisited_directory_diverges_witness:
  "read_fnt_main_entry (nds_mapping cyc2) (unat (fnt_offset cyc2)) =
     Some \<lparr>fnt_sub_offset = 24, fnt_next_id = 1, fnt_parent_id = 3\<rparr> \<and>
   (expands cyc2)\<^sup>*\<^sup>* (104, 1) (111, 0) \<and> (expands cyc2)\<^sup>+\<^sup>+ (111, 0) (111, 0) \<and>
   nitro_build_tree 1000 cyc2 = Inl OutOfFuel"
proof -
  have r: "(expands cyc2)\<^sup>*\<^sup>* (104, 1) (111, 0)"
    using cyc2_root_a by (rule r_into_rtranclp)
  have c: "(expands cyc2)\<^sup>+\<^sup>+ (111, 0) (111, 0)"
    using cyc2_a_b cyc2_b_a by (rule tranclp.trancl_into_trancl [OF tranclp.r_into_trancl])
  have "(expands cyc2)\<^sup>*\<^sup>*
      (unat (fnt_offset cyc2) + unat (fnt_sub_offset \<lparr>fnt_sub_offset = 24, fnt_next_id = 1,
         fnt_parent_id = 3\<rparr>),
       fnt_next_id \<lparr>fnt_sub_offset = 24, fnt_next_id = 1, fnt_parent_id = 3\<rparr>) (111, 0)"
    using r by (simp add: cyc2_sel)
  from revisited_directory_diverges [OF cyc2_root_record this c, of 1000] r c cyc2_root_record
  show ?thesis by simp
qed

text \<open>
  Against C3 as it is worded (the build of a self-referential image terminates with a
  failure): in the image \<open>cyc\<close> the only subentry of the root carries the root's own
  directory id, and the build returns for no amount of fuel.
\<close>

theorem cyclic_build_never_returns:
  "read_u16 cyc_bytes 90 = Some NITRO_ROOT \<and> (\<forall>k. nitro_build_tree k cyc = Inl OutOfFuel)"
proof
  show "read_u16 cyc_bytes 90 = Some NITRO_ROOT" by (simp add: table_eval cyc_reads)
next
  have "(expands cyc)\<^sup>+\<^sup>+ (88, 0) (88, 0)" using cyc_expands by (rule tranclp.r_into_trancl)
  moreover have "(expands cyc)\<^sup>*\<^sup>* (unat (fnt_offset cyc) + unat (8 :: 32 word), 0) (88, 0)"
    by (simp add: cyc_sel)
  ultimately show "\<forall>k. nitro_build_tree k cyc = Inl OutOfFuel"
    using build_tree_diverges [OF cyc_root_record, of "(88, 0)"] by simp
qed


subsection \<open>Directory ids and the declared table lengths\<close>

text \<open>
  Reads at or behind an address \<open>b\<close> see the same bytes in two images of the same size
  that agree from \<open>b\<close> on, and the builder reads nothing before the start of the two
  tables.
\<close>

lemma drop_agree:
  assumes "drop b m' = drop b m" and "b \<le> a"
  shows "drop a m' = drop a m"
proof -
  have "drop a m' = drop (a - b) (drop b m')" using assms(2) by simp
  also have "\<dots> = drop (a - b) (drop b m)" by (simp only: assms(1))
  also have "\<dots> = drop a m" using assms(2) by simp
  finally show ?thesis .
qed

lemma peek_agree:
  assumes "length m' = length m" and "drop b m' = drop b m" and "b \<le> a"
  shows "peek m' a n = peek m a n"
  using drop_agree [OF assms(2,3)] assms(1) by (simp add: peek_def)

lemma byte_at_agree:
  assumes "length m' = length m" and "drop b m' = drop b m" and "b \<le> a"
  shows "byte_at m' a = byte_at m a"
proof (cases "a < length m")
  case True
  have "m' ! a = hd (drop a m')" using True assms(1) by (simp add: hd_drop_conv_nth)
  also have "\<dots> = hd (drop a m)" by (simp only: drop_agree [OF assms(2,3)])
  also have "\<dots> = m ! a" using True by (simp add: hd_drop_conv_nth)
  finally show ?thesis using True assms(1) by (simp add: byte_at_def)
next
  case False
  then show ?thesis using assms(1) by (simp add: byte_at_def)
qed

lemma subdir_loop_agree:
  assumes len: "length (nds_mapping g') = length (nds_mapping g)"
    and dr: "drop b (nds_mapping g') = drop b (nds_mapping g)"
    and fnt: "fnt_offset g' = fnt_offset g" "b \<le> unat (fnt_offset g)"
    and fat: "fat_offset g' = fat_offset g" "b \<le> unat (fat_offset g)"
  shows "b \<le> p \<Longrightarrow> subdir_loop k g' dir p n = subdir_loop k g dir p n"
proof (induction k arbitrary: dir p n)
  case 0
  then show ?case by simp
next
  case (Suc k)
  note rd = peek_agree [OF len dr] byte_at_agree [OF len dr]
  have main: "read_fnt_main_entry (nds_mapping g') (fnt_main_addr g' i) =
      read_fnt_main_entry (nds_mapping g) (fnt_main_addr g i)" for i
    using fnt by (simp add: read_fnt_main_entry_def fnt_main_addr_def rd)
  have alloc: "read_fat_entry (nds_mapping g') (fat_addr g' i) =
      read_fat_entry (nds_mapping g) (fat_addr g i)" for i
    using fat by (simp add: read_fat_entry_def fat_addr_def rd)
  have u16: "p \<le> q \<Longrightarrow> read_u16 (nds_mapping g') q = read_u16 (nds_mapping g) q" for q
    using Suc.prems by (simp add: read_u16_def rd)
  have nm: "p \<le> q \<Longrightarrow> peek (nds_mapping g') q x = peek (nds_mapping g) q x" for q x
    using Suc.prems by (simp add: rd)
  have b0: "byte_at (nds_mapping g') p = byte_at (nds_mapping g) p"
    using Suc.prems by (simp add: rd)
  have sub: "subdir_loop k g' d (unat (fnt_offset g) + x) i =
      subdir_loop k g d (unat (fnt_offset g) + x) i" for d x i
    using fnt(2) by (simp add: Suc.IH)
  have nxt: "p \<le> q \<Longrightarrow> subdir_loop k g' d q i = subdir_loop k g d q i" for d q i
    using Suc.prems by (simp add: Suc.IH)
  show ?case
    by (simp add: b0 nm u16 main alloc fnt(1) sub nxt Let_def
        cong: option.case_cong sum.case_cong if_cong)
qed

lemma build_tree_agree:
  assumes len: "length (nds_mapping g') = length (nds_mapping g)"
    and dr: "drop b (nds_mapping g') = drop b (nds_mapping g)"
    and fnt: "fnt_offset g' = fnt_offset g" "b \<le> unat (fnt_offset g)"
    and fat: "fat_offset g' = fat_offset g" "b \<le> unat (fat_offset g)"
  shows "nitro_build_tree k g' = nitro_build_tree k g"
proof -
  have "read_fnt_main_entry (nds_mapping g') (unat (fnt_offset g)) =
      read_fnt_main_entry (nds_mapping g) (unat (fnt_offset g))"
    using fnt(2) by (simp add: read_fnt_main_entry_def peek_agree [OF len dr])
  moreover have "subdir_loop k g' d (unat (fnt_offset g) + x) i =
      subdir_loop k g d (unat (fnt_offset g) + x) i" for d x i
    using fnt(2) by (simp add: subdir_loop_agree [OF assms])
  ultimately show ?thesis
    by (simp add: nitro_build_tree_def nitro_build_subdir_def fnt(1)
        cong: option.case_cong)
qed

lemma load_globals_agree:
  assumes "load_globals m = Inr g" and "same_but_lengths m m'"
  shows "\<exists>g'. load_globals m' = Inr g' \<and> nds_mapping g' = m' \<and> nds_mapping g = m \<and>
           fnt_offset g' = fnt_offset g \<and> fat_offset g' = fat_offset g"
proof -
  from assms(2) have len: "length m' = length m"
    and hd: "take FNT_LENGTH m' = take FNT_LENGTH m"
    and fo: "take 4 (drop FAT_OFFSET m') = take 4 (drop FAT_OFFSET m)"
    by (simp_all add: same_but_lengths_def)
  have "take 4 (drop FNT_OFFSET (take FNT_LENGTH m')) =
      take 4 (drop FNT_OFFSET (take FNT_LENGTH m))"
    by (simp only: hd)
  then have no: "take 4 (drop FNT_OFFSET m') = take 4 (drop FNT_OFFSET m)"
    by (simp add: drop_take FNT_OFFSET_def FNT_LENGTH_def)
  from assms(1) len no fo show ?thesis
    by (auto simp: load_globals_def read_u32_def peek_def
        split: option.splits if_splits)
qed

lemma stray_entries: "entries stray_root = [stray_root, stray_D, stray_x]"
  by (simp add: stray_root_def stray_D_def stray_x_def)

lemma stray_globals: "load_globals stray_bytes = Inr stray"
  by (simp add: load_globals_def read_u32_def FNT_OFFSET_def FNT_LENGTH_def FAT_OFFSET_def
      FAT_LENGTH_def stray_reads stray_def)

lemma stray2_same: "same_but_lengths stray_bytes stray2_bytes"
  by (simp add: same_but_lengths_def stray2_bytes_def stray_bytes_def FNT_LENGTH_def
      FAT_OFFSET_def FAT_LENGTH_def)

lemma stray2_image:
  "stray2_bytes =
     replicate 64 0 @
     [80, 0, 0, 0, 88, 0, 0, 0, 93, 0, 0, 0, 8, 0, 0, 0, 8, 0, 0, 0, 0, 0, 1, 0, 129, 68, 10, 240, 0, 101, 0, 0, 0, 171, 0, 0, 0] @
     replicate 59 238 @
     [88, 0, 0, 0, 0, 0, 0, 240, 1, 120, 0]"
  by (simp add: stray2_bytes_def stray_bytes_def)

lemma stray2_globals: "load_globals stray2_bytes = Inr stray2"
  by (simp add: load_globals_def read_u32_def FNT_OFFSET_def FNT_LENGTH_def FAT_OFFSET_def
      FAT_LENGTH_def peek_eval [OF stray2_image] stray2_def)

text \<open>
  C4. The source never reads \<^verbatim>\<open>fnt_length\<close> or \<^verbatim>\<open>fat_length\<close> after loading them, and the
  build has no \<^verbatim>\<open>InvalidDirectoryId\<close> failure: the main record of a subdirectory is read at
  \<^verbatim>\<open>fnt_offset + 8 * (id & 0xFFF)\<close>, wherever that lies. Stated over the bytes of the
  image: when both tables start behind the header's four fields, an image that differs
  from another at most in the two declared table lengths loads the same table offsets
  and its build has the same outcome for every amount of fuel, the same tree or the same
  failure. So an image whose declared name-table length leaves the main record of a
  directory outside builds as the image that declares a length containing it: \<open>stray\<close>,
  which declares 13 bytes, builds the tree of \<open>stray2\<close>, which declares 88.
\<close>

theorem build_ignores_declared_length:
  assumes "load_globals m = Inr g"
    and "same_but_lengths m m'"
    and "FAT_LENGTH + 4 \<le> unat (fnt_offset g)"
    and "FAT_LENGTH + 4 \<le> unat (fat_offset g)"
  shows "\<exists>g'. load_globals m' = Inr g' \<and> fnt_offset g' = fnt_offset g \<and>
           fat_offset g' = fat_offset g \<and> nitro_build_tree k g' = nitro_build_tree k g"
proof -
  from load_globals_agree [OF assms(1,2)] obtain g' where
    g': "load_globals m' = Inr g'" "nds_mapping g' = m'" "nds_mapping g = m"
      "fnt_offset g' = fnt_offset g" "fat_offset g' = fat_offset g"
    by blast
  from assms(2) have "length (nds_mapping g') = length (nds_mapping g)"
    and "drop (FAT_LENGTH + 4) (nds_mapping g') = drop (FAT_LENGTH + 4) (nds_mapping g)"
    by (simp_all add: same_but_lengths_def g')
  then have "nitro_build_tree k g' = nitro_build_tree k g"
    using g'(4) assms(3) g'(5) assms(4) by (rule build_tree_agree)
  with g' show ?thesis by blast
qed

theorem build_ignores_declared_length_witness:
  "load_globals stray_bytes = Inr stray \<and> same_but_lengths stray_bytes stray2_bytes \<and>
   FAT_LENGTH + 4 \<le> unat (fnt_offset stray) \<and> FAT_LENGTH + 4 \<le> unat (fat_offset stray) \<and>
   stray_D \<in> set (entries stray_root) \<and> ent_type stray_D = NITRO_DIR_TYPE \<and>
   unat (fnt_length stray) \<le> unat (ent_id stray_D AND NITRO_DIRMASK) * 8 \<and>
   load_globals stray2_bytes = Inr stray2 \<and>
   unat (ent_id stray_D AND NITRO_DIRMASK) * 8 + 8 \<le> unat (fnt_length stray2) \<and>
   nitro_build_tree 10 stray2 = Inr stray_root \<and>
   nitro_build_tree 10 stray = Inr stray_root"
  using build_ignores_declared_length [OF stray_globals, of stray2_bytes 10]
  by (simp add: stray_globals stray2_globals stray2_same stray_sel FAT_LENGTH_def stray_build
      stray_entries stray_D_def NITRO_DIRMASK_def stray2_def)


text \<open>
  Against C4 as it is worded (a directory id whose main record lies beyond the declared
  name-table length fails the build): in the image \<open>stray\<close> the name table is declared
  13 bytes long and holds one main record, the root's subdirectory has the id \<open>0xF00A\<close>,
  whose main record is at offset 80 of the name table, and the build succeeds, reading
  that record from the file data.
\<close>

theorem stray_directory_id_builds:
  "load_globals stray_bytes = Inr stray \<and> fnt_length stray = 13 \<and>
   read_fnt_main_entry stray_bytes 80 =
     Some \<lparr>fnt_sub_offset = 8, fnt_next_id = 0, fnt_parent_id = 1\<rparr> \<and>
   stream_records stray_bytes 88 = Some [(NITRO_DIR_TYPE, [0x44])] \<and>
   read_u16 stray_bytes 90 = Some 0xF00A \<and>
   unat (fnt_length stray) \<le> unat ((0xF00A :: 16 word) AND NITRO_DIRMASK) * 8 \<and>
   nitro_build_tree 10 stray = Inr stray_root"
  by (simp add: stray_globals stray_build stream_records_numeral table_eval stray_reads)


section \<open>Claims about path traversal\<close>

lemmas traverse_eval =
  nitro_traverse_path_def c_str_def SLASH_def descend_def find_child_def

lemma bac_no_empty_names: "no_empty_names bac_root"
  by (simp add: no_empty_names_def bac_entries bac_root_sel c_str_def
      bac_A_def bac_B_def bac_C_def bac_x_def)

text \<open>
  C2. The claim: an intermediate component that matches no child of the directory
  reached so far makes the resolution fail; in particular \<^verbatim>\<open>/a/b/c\<close> is not found when
  \<^verbatim>\<open>a\<close> exists and \<^verbatim>\<open>b\<close> does not exist under it. The loop over the intermediate
  components has no branch for the case that no child matches: \<open>dir\<close> stays where it
  is and the next component is looked up in the same directory. In the tree of \<open>abc\<close>
  (the root holds \<^verbatim>\<open>a\<close>, which holds only \<^verbatim>\<open>c\<close>) the path \<^verbatim>\<open>/a/b/c\<close> resolves to the entry
  of \<^verbatim>\<open>/a/c\<close>.
\<close>

theorem traverse_skips_missing_component:
  "nitro_build_tree 10 abc = Inr abc_root \<and>
   find_child abc_root [0x61] = Some abc_a \<and>
   find_child abc_a [0x62] = None \<and>
   nitro_traverse_path abc_root [0x2F, 0x61, 0x2F, 0x62, 0x2F, 0x63] = Inr (Some abc_c)"
  by (simp add: abc_build traverse_eval abc_root_def abc_a_def abc_c_def)

text \<open>
  C10. In a tree where no child has an empty name, a path with empty intermediate
  components resolves to the same result as the path without them, provided the path
  has a non-empty component: an empty component matches no child, so the directory
  reached so far is kept. (A path of separators only is the exception: \<^verbatim>\<open>/\<close> is the
  root by the special case at the head of the function, while \<^verbatim>\<open>//\<close> ends in a lookup of
  the empty name and is not found.)
\<close>

theorem empty_components_skipped:
  assumes "no_empty_names root" and "list_all component comps" and "component final"
    and "final \<noteq> [] \<or> list_ex (\<lambda>c. c \<noteq> []) comps"
  shows "nitro_traverse_path root (mk_path comps final) =
         nitro_traverse_path root (mk_path (filter (\<lambda>c. c \<noteq> []) comps) final)"
proof -
  have comps': "list_all component (filter (\<lambda>c. c \<noteq> []) comps)"
    using assms(2) by (simp add: list_all_iff)
  have "(filter (\<lambda>c. c \<noteq> []) comps = [] \<and> final = []) = (comps = [] \<and> final = [])"
    using assms(4) by (auto simp: filter_empty_conv list_ex_iff)
  then show ?thesis
    unfolding traverse_mk_path [OF assms(2,3)] traverse_mk_path [OF comps' assms(3)]
    using foldl_descend_collapse [OF assms(1) entries_self, of comps] by simp
qed

theorem empty_components_skipped_witness:
  "no_empty_names bac_root \<and> list_all component [[], [0x41], []] \<and> component [0x78] \<and>
   mk_path [[], [0x41], []] [0x78] = [0x2F, 0x2F, 0x41, 0x2F, 0x2F, 0x78] \<and>
   mk_path (filter (\<lambda>c. c \<noteq> []) [[], [0x41], []]) [0x78] = [0x2F, 0x41, 0x2F, 0x78] \<and>
   nitro_traverse_path bac_root [0x2F, 0x41, 0x2F, 0x78] = Inr (Some bac_x) \<and>
   nitro_traverse_path bac_root [0x2F, 0x2F, 0x41, 0x2F, 0x2F, 0x78] = Inr (Some bac_x)"
proof -
  have "nitro_traverse_path bac_root [0x2F, 0x41, 0x2F, 0x78] = Inr (Some bac_x)"
    by (simp add: traverse_eval bac_root_def bac_A_def bac_B_def bac_C_def bac_x_def)
  with empty_components_skipped [of bac_root "[[], [0x41], []]" "[0x78]"]
  show ?thesis by (simp add: bac_no_empty_names mk_path_def component_def SLASH_def)
qed

text \<open>
  Against C10 as it is worded (for every path with consecutive separators): in the tree
  of \<open>bac\<close>, which has no empty name, \<^verbatim>\<open>//\<close> is not found, and without its empty component
  it is \<^verbatim>\<open>/\<close>, the root.
\<close>

theorem double_slash_not_root:
  "no_empty_names bac_root \<and> mk_path [[]] [] = [SLASH, SLASH] \<and>
   mk_path (filter (\<lambda>c. c \<noteq> []) [[]]) [] = [SLASH] \<and>
   nitro_traverse_path bac_root (mk_path [[]] []) = Inr None \<and>
   nitro_traverse_path bac_root (mk_path (filter (\<lambda>c. c \<noteq> []) [[]]) []) =
     Inr (Some bac_root)"
proof -
  have "nitro_traverse_path bac_root [SLASH, SLASH] = Inr None"
    "nitro_traverse_path bac_root [SLASH] = Inr (Some bac_root)"
    by (simp_all add: traverse_eval bac_root_def bac_A_def bac_B_def bac_C_def bac_x_def)
  then show ?thesis by (simp add: bac_no_empty_names mk_path_def)
qed


section \<open>Claims about attributes\<close>

lemma nitro_ino_uint:
  "uint (nitro_ino e) = push_bit 8 (uint (ent_parent_id e)) OR uint (ent_id e)"
proof -
  have p: "uint (ent_parent_id e) < 2 ^ 16" using uint_lt2p [of "ent_parent_id e"] by simp
  have "uint (push_bit 8 (ucast (ent_parent_id e) :: 32 word)) =
      take_bit 32 (push_bit 8 (uint (ent_parent_id e)))"
    by (simp add: uint_word_of_int_eq unsigned_push_bit_eq uint_up_ucast is_up)
  also have "\<dots> = push_bit 8 (uint (ent_parent_id e))"
    using p by (simp add: take_bit_int_eq_self push_bit_eq_mult)
  finally show ?thesis
    by (simp add: nitro_ino_def unsigned_or_eq uint_up_ucast is_up)
qed

text \<open>
  C9. The \<^verbatim>\<open>st_ino\<close> that \<^verbatim>\<open>nitro_fill_stat\<close> reports for an entry is its parent's id
  shifted left by 8 bits, or-ed with its own id, as a 32-bit value. The mapping is not
  injective: in the tree built from \<open>ino\<close> the file \<^verbatim>\<open>/f\<close> (id \<open>0x100\<close>, parent \<open>0xF000\<close>) and
  the file \<^verbatim>\<open>/d/g\<close> (id 0, parent \<open>0xF001\<close>) are distinct entries, and \<^verbatim>\<open>nitro_getattr\<close>
  reports the \<^verbatim>\<open>st_ino\<close> \<open>0xF00100\<close> for both.
\<close>

theorem ino_formula_not_injective:
  "uint (st_ino (nitro_fill_stat e)) =
     take_bit 32 (push_bit 8 (uint (ent_parent_id e)) OR uint (ent_id e)) \<and>
   nitro_build_tree 10 ino = Inr ino_root \<and>
   nitro_traverse_path ino_root [0x2F, 0x66] = Inr (Some ino_f) \<and>
   nitro_traverse_path ino_root [0x2F, 0x64, 0x2F, 0x67] = Inr (Some ino_g) \<and>
   ino_f \<noteq> ino_g \<and>
   ent_parent_id ino_f = 0xF000 \<and> ent_id ino_f = 0x100 \<and>
   ent_parent_id ino_g = 0xF001 \<and> ent_id ino_g = 0 \<and>
   map_sum id (map_sum id st_ino) (nitro_getattr ino_root [0x2F, 0x66]) =
     Inr (Inr 0xF00100) \<and>
   map_sum id (map_sum id st_ino) (nitro_getattr ino_root [0x2F, 0x64, 0x2F, 0x67]) =
     Inr (Inr 0xF00100)"
proof -
  have "uint (st_ino (nitro_fill_stat e)) = uint (nitro_ino e)"
    by (simp add: nitro_fill_stat_def uint_up_ucast is_up)
  also have "\<dots> = take_bit 32 (uint (nitro_ino e))"
    by (simp add: take_bit_int_eq_self uint_lt2p [of "nitro_ino e", simplified])
  finally have formula: "uint (st_ino (nitro_fill_stat e)) =
      take_bit 32 (push_bit 8 (uint (ent_parent_id e)) OR uint (ent_id e))"
    by (simp only: nitro_ino_uint)
  have t1: "nitro_traverse_path ino_root [0x2F, 0x66] = Inr (Some ino_f)"
    by (simp add: traverse_eval ino_root_def ino_d_def ino_f_def ino_g_def)
  have t2: "nitro_traverse_path ino_root [0x2F, 0x64, 0x2F, 0x67] = Inr (Some ino_g)"
    by (simp add: traverse_eval ino_root_def ino_d_def ino_f_def ino_g_def)
  have ids: "ino_f \<noteq> ino_g" "ent_parent_id ino_f = 0xF000" "ent_id ino_f = 0x100"
    "ent_parent_id ino_g = 0xF001" "ent_id ino_g = 0"
    by (simp_all add: ino_f_def ino_g_def)
  have inos: "st_ino (nitro_fill_stat ino_f) = 0xF00100"
    "st_ino (nitro_fill_stat ino_g) = 0xF00100"
    by (simp_all add: nitro_fill_stat_def nitro_ino_def ino_f_def ino_g_def)
  have "map_sum id (map_sum id st_ino) (nitro_getattr ino_root [0x2F, 0x66]) =
      Inr (Inr 0xF00100)"
    "map_sum id (map_sum id st_ino) (nitro_getattr ino_root [0x2F, 0x64, 0x2F, 0x67]) =
      Inr (Inr 0xF00100)"
    by (simp_all add: nitro_getattr_def t1 t2 inos)
  with formula ino_build t1 t2 ids show ?thesis by simp
qed


section \<open>Claims about reading a file\<close>

lemma sint_nonneg_uint:
  fixes w :: "'a::len word"
  assumes "0 \<le> sint w"
  shows "sint w = uint w"
proof -
  let ?n = "LENGTH('a) - Suc 0"
  have nb: "\<not> bit (uint w) ?n" using assms by (simp add: sint_uint)
  then have "sint w = take_bit ?n (uint w)"
    by (simp add: sint_uint signed_take_bit_eq_if_positive)
  also have "\<dots> = take_bit (Suc ?n) (uint w)"
    using nb by (subst take_bit_Suc_from_most) simp
  also have "Suc ?n = LENGTH('a)" by simp
  also have "take_bit LENGTH('a) (uint w) = uint w"
    by (simp add: take_bit_int_eq_self uint_lt2p)
  finally show ?thesis .
qed

lemma uint_ucast_32_64: "uint (ucast (w :: 32 word) :: 64 word) = uint w"
  by (simp add: uint_up_ucast is_up)

lemma uint_ucast_64_32:
  fixes w :: "64 word"
  assumes "uint w < 2 ^ 31"
  shows "uint (ucast w :: 32 word) = uint w"
proof -
  have "uint w < 2 ^ 32" using assms by simp
  then have "take_bit 32 (uint w) = uint w" by (simp add: take_bit_int_eq_self)
  then show ?thesis by (simp add: unsigned_ucast_eq)
qed

lemma sint_ucast_small:
  fixes w :: "64 word"
  assumes "uint w < 2 ^ 31"
  shows "sint (ucast w :: 32 word) = uint w"
proof -
  have "- (2 ^ 31) \<le> (0 :: int)" by simp
  then have "- (2 ^ 31) \<le> uint w" using uint_ge_0 [of w] by (rule order_trans)
  then have "signed_take_bit 31 (uint w) = uint w"
    using assms by (rule signed_take_bit_int_eq_self)
  then show ?thesis by (simp add: sint_uint uint_ucast_64_32 [OF assms])
qed


lemma nitro_read_negative: "sint off < 0 \<Longrightarrow> nitro_read g F sz off = Inr (- EINVAL, [])"
  by (simp add: nitro_read_def)

lemma nitro_read_eof:
  "0 \<le> sint off \<Longrightarrow> uint (ent_size F) \<le> sint off \<Longrightarrow> nitro_read g F sz off = Inr (0, [])"
  by (simp add: nitro_read_def)

lemma nitro_read_truncated:
  assumes off: "0 \<le> sint off" "sint off < uint (ent_size F)"
    and over: "uint (ent_size F) < sint off + uint sz"
    and nowrap: "sint off + uint sz < 2 ^ 64"
    and fits: "uint (ent_size F) - sint off < 2 ^ 31"
    and fe: "read_fat_entry (nds_mapping g) (fat_addr g (ent_id F)) = Some fe"
    and ext: "unat (start_offset fe) + unat (ent_size F) \<le> length (nds_mapping g)"
  shows "\<exists>bs. nitro_read g F sz off = Inr (uint (ent_size F) - sint off, bs) \<and>
           int (length bs) = uint (ent_size F) - sint off"
proof -
  let ?size = "ucast (ent_size F) :: 64 word"
  have soff: "sint off = uint off" using off(1) by (rule sint_nonneg_uint)
  have usize: "uint ?size = uint (ent_size F)" by (rule uint_ucast_32_64)
  have "uint off + uint sz < 2 ^ LENGTH(64)" using nowrap soff by simp
  then have sum: "uint (off + sz) = uint off + uint sz" by (simp only: uint_add_lem)
  have lt: "?size < off + sz" using over by (simp add: word_less_def usize sum soff)
  have "uint off \<le> uint ?size" using off(2) by (simp add: usize soff)
  then have "uint (?size - off) = uint ?size - uint off"
    by (rule uint_sub_lem [THEN iffD1])
  then have diff: "uint (?size - off) = uint (ent_size F) - uint off"
    by (simp only: usize)
  have small: "uint (?size - off) < 2 ^ 31" using diff fits soff by simp
  have ret: "sint (ucast (?size - off) :: 32 word) = uint (?size - off)"
    using small by (rule sint_ucast_small)
  have "nat (uint (?size - off)) \<le> nat (uint (ent_size F))"
    unfolding diff by (rule nat_mono) simp
  then have "unat (?size - off) \<le> unat (ent_size F)"
    by (simp only: unat_eq_nat_uint)
  then have "unat (start_offset fe) + unat (?size - off) \<le> length (nds_mapping g)"
    using ext by simp
  then obtain bs where
    bs: "peek (nds_mapping g) (unat (start_offset fe)) (unat (?size - off)) = Some bs"
    by (simp add: peek_def)
  then have "length bs = unat (?size - off)" by (rule peek_length)
  then have "int (length bs) = uint (?size - off)" by simp
  then have len: "int (length bs) = uint (ent_size F) - sint off"
    by (simp only: diff soff)
  have "nitro_read g F sz off = Inr (uint (ent_size F) - sint off, bs)"
    using off fe lt bs ret diff soff by (simp add: nitro_read_def Let_def)
  with len show ?thesis by blast
qed

text \<open>
  Whatever the offset, the bytes \<^verbatim>\<open>nitro_read\<close> copies are those at the start of the file's
  data.
\<close>

lemma peek_length_self: "peek m a n = Some bs \<Longrightarrow> peek m a (length bs) = Some bs"
  by (frule peek_length) simp

lemma nitro_read_from_start:
  assumes "nitro_read g F sz off = Inr (r, bs)" and "0 \<le> sint off"
    and "sint off < uint (ent_size F)"
  shows "\<exists>fe. read_fat_entry (nds_mapping g) (fat_addr g (ent_id F)) = Some fe \<and>
           peek (nds_mapping g) (unat (start_offset fe)) (length bs) = Some bs"
  using assms
  by (auto simp: nitro_read_def Let_def split: option.splits if_splits
      intro: peek_length_self)

lemma bac_length: "length bac_bytes = 139"
  by (simp add: bac_bytes_def)

text \<open>
  C1. The claim: for \<open>0 \<le> offset < size\<close> the bytes returned are those of the image
  from \<open>start + offset\<close> on, \<open>start\<close> being the start offset of the file's allocation
  record. The \<^verbatim>\<open>memcpy\<close> of \<^verbatim>\<open>nitro_read\<close> copies from \<^verbatim>\<open>nds_mapping + start_offset\<close>: the
  offset clamps the length and is then left out of the source address. In the tree of
  \<open>bac\<close> the file \<^verbatim>\<open>B\<close> holds the bytes \<open>21 22 23 24\<close> (hexadecimal) at 134; reading 2
  bytes at offset 1 returns \<open>21 22\<close>, where the bytes at \<open>start + 1\<close> are \<open>22 23\<close>.
\<close>

theorem nitro_read_ignores_offset:
  "nitro_build_tree 10 bac = Inr bac_root \<and> bac_B \<in> set (entries bac_root) \<and>
   read_fat_entry (nds_mapping bac) (fat_addr bac (ent_id bac_B)) =
     Some \<lparr>start_offset = 134, end_offset = 138\<rparr> \<and>
   peek (nds_mapping bac) 134 4 = Some [0x21, 0x22, 0x23, 0x24] \<and>
   peek (nds_mapping bac) (134 + 1) 2 = Some [0x22, 0x23] \<and>
   nitro_read bac bac_B 2 1 = Inr (2, [0x21, 0x22])"
  by (simp add: bac_build bac_entries nitro_read_def table_eval bac_reads bac_child_sel)

lemma big_sel: "nds_mapping big = big_bytes" "fnt_offset big = 80" "fat_offset big = 91"
  by (simp_all add: big_def)
lemmas big_reads = peek_eval [OF big_bytes_def] byte_at_eval [OF big_bytes_def] big_sel

lemma big_globals: "load_globals big_bytes = Inr big"
  by (simp add: load_globals_def read_u32_def FNT_OFFSET_def FNT_LENGTH_def FAT_OFFSET_def
      FAT_LENGTH_def big_reads big_def)

lemma big_build: "nitro_build_tree 10 big = Inr big_root"
  by (simp add: build_eval big_reads big_root_def big_z_def)

lemma big_z_sel: "ent_id big_z = 0" "ent_size big_z = 0x80000000"
  by (simp_all add: big_z_def)

lemma big_entries: "entries big_root = [big_root, big_z]"
  by (simp add: big_root_def big_z_def)

text \<open>
  C5. \<^verbatim>\<open>nitro_read\<close> returns \<^verbatim>\<open>-EINVAL\<close> for a negative offset, and returns 0, with no byte
  copied, for an offset at or past the file's size. For an offset inside the file with
  \<open>offset + length\<close> past its size it returns \<open>size - offset\<close> and copies that many
  bytes when the sum \<open>offset + length\<close> does not wrap in \<^verbatim>\<open>size_t\<close>, the count fits the
  \<^verbatim>\<open>int\<close> the function returns, and the file's allocation record and data lie inside the
  image.
\<close>

theorem nitro_read_cases:
  "(sint off < 0 \<longrightarrow> nitro_read g F sz off = Inr (- EINVAL, [])) \<and>
   (0 \<le> sint off \<and> uint (ent_size F) \<le> sint off \<longrightarrow> nitro_read g F sz off = Inr (0, [])) \<and>
   (0 \<le> sint off \<and> sint off < uint (ent_size F) \<and> uint (ent_size F) < sint off + uint sz \<and>
    sint off + uint sz < 2 ^ 64 \<and> uint (ent_size F) - sint off < 2 ^ 31 \<and>
    read_fat_entry (nds_mapping g) (fat_addr g (ent_id F)) = Some fe \<and>
    unat (start_offset fe) + unat (ent_size F) \<le> length (nds_mapping g) \<longrightarrow>
      (\<exists>bs. nitro_read g F sz off = Inr (uint (ent_size F) - sint off, bs) \<and>
         int (length bs) = uint (ent_size F) - sint off))"
  using nitro_read_negative [of off g F sz] nitro_read_eof [of off F g sz]
    nitro_read_truncated [of off F sz g fe]
  by blast

theorem nitro_read_cases_witness:
  "nitro_read bac bac_B 10 (- 1) = Inr (- 22, []) \<and>
   nitro_read bac bac_B 10 4 = Inr (0, []) \<and>
   read_fat_entry (nds_mapping bac) (fat_addr bac (ent_id bac_B)) =
     Some \<lparr>start_offset = 134, end_offset = 138\<rparr> \<and>
   uint (ent_size bac_B) = 4 \<and> length (nds_mapping bac) = 139 \<and>
   (\<exists>bs. nitro_read bac bac_B 10 1 = Inr (3, bs) \<and> int (length bs) = 3)"
  using nitro_read_cases [of "- 1" bac bac_B 10]
    nitro_read_cases [of 4 bac bac_B 10]
    nitro_read_cases [of 1 bac bac_B 10 "\<lparr>start_offset = 134, end_offset = 138\<rparr>"]
  by (simp add: EINVAL_def table_eval bac_reads bac_child_sel bac_length)

text \<open>
  Against C5 as it is worded (every read at an offset inside the file with
  \<open>offset + length\<close> past its size returns exactly \<open>size - offset\<close> bytes). In \<open>bac\<close> the
  file \<^verbatim>\<open>B\<close> has 4 bytes; a read of \<open>2 ^ 64 - 1\<close> bytes at offset 1 goes past the size, but
  \<^verbatim>\<open>offset + size\<close> wraps to 0 in \<^verbatim>\<open>size_t\<close>, the length is not clamped and the \<^verbatim>\<open>memcpy\<close> of
  \<open>2 ^ 64 - 1\<close> bytes leaves the mapping. In \<open>big\<close> the file \<^verbatim>\<open>z\<close> has \<open>2 ^ 31\<close> bytes; a
  read of one byte more at offset 0 copies \<open>2 ^ 31\<close> bytes and returns, cut to \<^verbatim>\<open>int\<close>,
  \<open>- 2 ^ 31\<close>.
\<close>

theorem nitro_read_wraps_and_overflows:
  "nitro_build_tree 10 bac = Inr bac_root \<and> bac_B \<in> set (entries bac_root) \<and>
   uint (ent_size bac_B) = 4 \<and> 0 \<le> sint (1 :: 64 word) \<and>
   sint (1 :: 64 word) < uint (ent_size bac_B) \<and>
   uint (ent_size bac_B) < sint (1 :: 64 word) + uint (0xFFFFFFFFFFFFFFFF :: 64 word) \<and>
   nitro_read bac bac_B 0xFFFFFFFFFFFFFFFF 1 = Inl OutOfBounds \<and>
   load_globals big_bytes = Inr big \<and>
   nitro_build_tree 10 big = Inr big_root \<and> big_z \<in> set (entries big_root) \<and>
   uint (ent_size big_z) = 2147483648 \<and> 0 \<le> sint (0 :: 64 word) \<and>
   sint (0 :: 64 word) < uint (ent_size big_z) \<and>
   uint (ent_size big_z) < sint (0 :: 64 word) + uint (0x80000001 :: 64 word) \<and>
   nitro_read big big_z 0x80000001 0 = Inr (- 2147483648, replicate 2147483648 0)"
  by (simp add: bac_build bac_entries bac_child_sel big_globals big_build big_entries
      big_z_sel nitro_read_def table_eval bac_reads big_reads)

end
